theory Spec2Isabelle
  imports Main "HOL-Library.Word"
begin

section \<open>Malloc.hh: the allocation bookkeeping object\<close>

text \<open>
  The class \<open>Malloc<T>\<close> keeps a name, three \<open>size_t\<close> counters and the pointer to the
  block it owns. The counters are 64-bit words; the pointer is an optional address,
  \<open>None\<close> being \<open>nullptr\<close>.
\<close>

type_synonym size_t = "64 word"

record Malloc =
  m_name :: string
  m_numTotValues :: size_t
  m_numTotReserved :: size_t
  m_numAllocated :: size_t
  m_pMalloc :: "nat option"

text \<open>The constructor \<open>Malloc(std::string const & name)\<close> with its initialiser list.\<close>

definition Malloc_ctor :: "string \<Rightarrow> Malloc" where
  "Malloc_ctor name =
     \<lparr> m_name = name, m_numTotValues = 0, m_numTotReserved = 0,
       m_numAllocated = 0, m_pMalloc = None \<rparr>"

text \<open>\<open>size_t size() const { return m_numTotValues; }\<close>\<close>

definition size_Malloc :: "Malloc \<Rightarrow> size_t" where
  "size_Malloc m = m_numTotValues m"

text \<open>\<open>bool is_empty() const { return m_numAllocated <= m_numTotValues; }\<close>\<close>

definition is_empty :: "Malloc \<Rightarrow> bool" where
  "is_empty m \<longleftrightarrow> m_numAllocated m \<le> m_numTotValues m"

section \<open>Trace.cc: the symbol demangler\<close>

text \<open>
  \<open>demang\<close> receives a C string that may be the null pointer and calls
  \<open>abi::__cxa_demangle\<close>, a function of the C++ runtime. The runtime function is a
  parameter of the model: it maps the mangled name to the pointer it returns (\<open>None\<close>
  for null) and the status it stores. Assigning a null \<open>char *\<close> to a
  \<open>std::string\<close> is undefined behaviour, which the model returns as a fault.
\<close>

datatype fault = NullAssigned

text \<open>\<open>strchr(s, c)\<close>: the offset of the first occurrence of \<open>c\<close>, or null.\<close>

fun strchr :: "string \<Rightarrow> char \<Rightarrow> nat option" where
  "strchr [] c = None"
| "strchr (x # xs) c = (if x = c then Some 0 else map_option Suc (strchr xs c))"

definition demang :: "(string \<Rightarrow> string option \<times> int) \<Rightarrow> string option \<Rightarrow> fault + string" where
  "demang cxa_demangle mangled_name =
     (case mangled_name of
        None \<Rightarrow> Inr []
      | Some mn \<Rightarrow>
          (case cxa_demangle mn of
             (name, status) \<Rightarrow>
               if status = 0 then
                 (case name of
                    None \<Rightarrow> Inl NullAssigned
                  | Some nm \<Rightarrow>
                      (case strchr nm (CHR ''('') of
                         None \<Rightarrow> Inr nm
                       | Some p \<Rightarrow> Inr (take p nm)))
               else Inr mn))"

section \<open>parallel\_transform.h: the data of the parallel transform\<close>

text \<open>
  An input range is the list of the elements between its two traversal handles; an input
  cursor is a position in that list. The output range is a memory that maps an output
  position to the value stored there, and an output cursor is such a position. The element
  function either returns a value (\<open>Inr\<close>) or raises (\<open>Inl\<close>).

  \<open>int\<close> and \<open>unsigned\<close> are 32-bit words, \<open>std::size_t\<close> is a 64-bit word.
\<close>

type_synonym c_int = "32 word"
type_synonym c_unsigned = "32 word"
type_synonym 'b memory = "nat \<rightharpoonup> 'b"

text \<open>
  Modelled from the spec: the classes \<open>Transform_Queue\<close> and
  \<open>GenericThreadPoolTmpl\<close> are used by \<open>TransformThreadPoolImpl\<close> but are not
  among the sources; their data follows the data model of the spec (3). A chunk is a
  claimed unit of work: input-start, input-end and output-start handles.
\<close>

datatype chunk = Chunk (in_first: nat) (in_last: nat) (out_first: nat)

datatype claimed = Exhausted | Claimed chunk

text \<open>
  Modelled from the spec: the shared state of the chunk dispenser \<open>Transform_Queue\<close>
  (not among the sources): current input cursor,
  end-of-range cursor, current output cursor, remaining count (\<open>None\<close> for a positional
  range, whose count is a distance; \<open>Some r\<close> the tracked counter of a sequential
  range) and the chunk-size divisor.
\<close>

record Transform_Queue =
  q_current :: nat
  q_last :: nat
  q_result :: nat
  q_remaining :: "nat option"
  q_maxpart :: nat

text \<open>
  Modelled from the spec: a worker of \<open>GenericThreadPoolTmpl\<close> (not among the
  sources) is about to claim a chunk, is inside a chunk (next input position, end of the
  chunk, next output position), or has stopped.
\<close>

datatype worker = Idle | Working nat nat nat | Stopped

text \<open>
  Modelled from the spec: the pool of \<open>TransformThreadPoolImpl\<close>, whose members
  \<open>queue\<close> and \<open>pool\<close> are of the two classes that are not among the sources: the
  dispenser, its workers, the output memory and the worker failure slot.
  \<open>issued\<close> and \<open>raised\<close> are histories that no operation reads: the chunks issued
  so far and the failures raised so far, each in the order of the events.
\<close>

record ('b, 'e) pool =
  queue :: Transform_Queue
  workers :: "worker list"
  outputs :: "'b memory"
  pending_exception :: "'e option"
  issued :: "chunk list"
  raised :: "'e list"

section \<open>The single-threaded algorithm\<close>

text \<open>
  \<open>std::transform(first, last, result, fun)\<close>: one element after the other, in order;
  an exception of \<open>fun\<close> leaves the loop at once. The memory written so far is
  returned with the outcome.
\<close>

fun std_transform ::
  "('a \<Rightarrow> 'e + 'b) \<Rightarrow> 'a list \<Rightarrow> nat \<Rightarrow> 'b memory \<Rightarrow> 'b memory \<times> ('e + nat)" where
  "std_transform f [] result m = (m, Inr result)"
| "std_transform f (x # xs) result m =
     (case f x of
        Inl e \<Rightarrow> (m, Inl e)
      | Inr v \<Rightarrow> std_transform f xs (Suc result) (m(result \<mapsto> v)))"

section \<open>The chunk dispenser\<close>

text \<open>
  Modelled from the spec: the class \<open>Transform_Queue\<close> is used by
  \<open>TransformThreadPoolImpl\<close> but its body is not among the sources. The spec (4.2)
  gives its one operation: return Exhausted when the input cursor equals the end cursor
  or the remaining count is zero; otherwise take \<open>remaining\<close> from the distance
  (positional) or from the tracked counter (sequential), compute
  \<open>size = max(1, remaining / maxpart)\<close> with \<open>maxpart = 0\<close> the sentinel for size 1,
  advance the input and the output cursor by \<open>size\<close>, decrement the tracked counter,
  and return the chunk between the old and the new cursor.
\<close>

definition chunk_size :: "nat \<Rightarrow> nat \<Rightarrow> nat" where
  "chunk_size rem mp = (if mp = 0 then 1 else max 1 (rem div mp))"

definition claim :: "Transform_Queue \<Rightarrow> claimed \<times> Transform_Queue" where
  "claim q =
     (if q_current q = q_last q \<or> q_remaining q = Some 0 then (Exhausted, q)
      else
        let rem = (case q_remaining q of None \<Rightarrow> q_last q - q_current q | Some r \<Rightarrow> r);
            sz = chunk_size rem (q_maxpart q)
        in (Claimed (Chunk (q_current q) (q_current q + sz) (q_result q)),
            q\<lparr> q_current := q_current q + sz,
               q_result := q_result q + sz,
               q_remaining := map_option (\<lambda>r. r - sz) (q_remaining q) \<rparr>))"

text \<open>
  Modelled from the spec: the constructor of \<open>Transform_Queue\<close>, called as
  \<open>queue(first, last, result, fun, maxpart)\<close>. The template argument
  \<open>is_forward_iterator<InputIterator>::value && is_forward_iterator<OutputIterator>::value\<close>
  chooses the positional variant; \<open>n\<close> is the number of elements of the input range.
\<close>

definition Transform_Queue_ctor :: "bool \<Rightarrow> nat \<Rightarrow> nat \<Rightarrow> nat \<Rightarrow> Transform_Queue" where
  "Transform_Queue_ctor forward_iterator n result mp =
     \<lparr> q_current = 0, q_last = n, q_result = result,
       q_remaining = (if forward_iterator then None else Some n),
       q_maxpart = mp \<rparr>"

section \<open>The thread pool executor\<close>

text \<open>
  Modelled from the spec: the class \<open>GenericThreadPoolTmpl\<close> is not among the sources.
  The spec (4.3) gives the loop of each worker: claim a chunk and stop when the dispenser
  is exhausted; process the positions of the chunk in input order, writing each result to
  the corresponding output position; on a failure of the function drop the rest of the
  chunk, store the failure in the failure slot if the slot is empty, and stop.

  \<open>worker_step f xs w\<close> is one atomic step of worker \<open>w\<close>: a claim (the critical
  section of the dispenser), one element, or the return to the dispenser at the end of a
  chunk. A stopped worker and a worker that does not exist do nothing. The read
  \<open>xs ! i\<close> is inside the input range in every state the pool reaches (lemma
  \<open>worker_reads_in_range\<close>).
\<close>

definition worker_step ::
  "('a \<Rightarrow> 'e + 'b) \<Rightarrow> 'a list \<Rightarrow> nat \<Rightarrow> ('b, 'e) pool \<Rightarrow> ('b, 'e) pool" where
  "worker_step f xs w s =
     (if w < length (workers s) then
        (case workers s ! w of
           Stopped \<Rightarrow> s
         | Idle \<Rightarrow>
             (case claim (queue s) of
                (Exhausted, q') \<Rightarrow> s\<lparr> workers := (workers s)[w := Stopped] \<rparr>
              | (Claimed c, q') \<Rightarrow>
                  s\<lparr> queue := q',
                     workers := (workers s)[w := Working (in_first c) (in_last c) (out_first c)],
                     issued := issued s @ [c] \<rparr>)
         | Working i e out \<Rightarrow>
             if i = e then s\<lparr> workers := (workers s)[w := Idle] \<rparr>
             else
               (case f (xs ! i) of
                  Inr v \<Rightarrow>
                    s\<lparr> outputs := (outputs s)(out \<mapsto> v),
                       workers := (workers s)[w := Working (Suc i) e (Suc out)] \<rparr>
                | Inl err \<Rightarrow>
                    s\<lparr> pending_exception :=
                         (case pending_exception s of None \<Rightarrow> Some err | Some e0 \<Rightarrow> Some e0),
                       raised := raised s @ [err],
                       workers := (workers s)[w := Stopped] \<rparr>))
      else s)"

text \<open>
  An interleaving of the workers is a schedule: the list of the workers that take the
  successive steps.
\<close>

definition run ::
  "('a \<Rightarrow> 'e + 'b) \<Rightarrow> 'a list \<Rightarrow> nat list \<Rightarrow> ('b, 'e) pool \<Rightarrow> ('b, 'e) pool" where
  "run f xs sched s = fold (worker_step f xs) sched s"

definition all_stopped :: "('b, 'e) pool \<Rightarrow> bool" where
  "all_stopped s \<longleftrightarrow> list_all (\<lambda>w. w = Stopped) (workers s)"

text \<open>
  Modelled from the spec: \<open>join()\<close> blocks until every worker has stopped, then
  re-raises the failure in the slot if there is one and returns normally otherwise.
  \<open>None\<close> is the call that is still blocked.
\<close>

definition join :: "('b, 'e) pool \<Rightarrow> ('e + unit) option" where
  "join s =
     (if all_stopped s then
        Some (case pending_exception s of None \<Rightarrow> Inr () | Some e \<Rightarrow> Inl e)
      else None)"

text \<open>
  Modelled from the spec: \<open>GenericThreadPoolTmpl::determine_thread_count\<close> is not among
  the sources. The spec (4.4, 6) resolves a negative sentinel to the probed hardware
  parallelism \<open>hw\<close> and takes every other value as it is. The functions below take the
  resolution as a parameter \<open>det\<close>; this definition is one such resolution.
\<close>

definition determine_thread_count :: "c_unsigned \<Rightarrow> c_int \<Rightarrow> c_unsigned" where
  "determine_thread_count hw thread_count = (if sint thread_count < 0 then hw else thread_count)"

text \<open>
  The constructor \<open>TransformThreadPoolImpl(first, last, result, fun, thread_count, maxpart)\<close>
  with its initialiser list \<open>queue(first, last, result, fun, maxpart), pool(queue, thread_count)\<close>.
  Modelled from the spec: the constructor of the pool spawns the workers; as the comment
  of this constructor says (\<open>If the default value of -1 is specified, the thread count is
  determined based on the number of available hardware threads\<close>), the pool resolves the
  requested count itself.
\<close>

definition TransformThreadPoolImpl ::
  "(c_int \<Rightarrow> c_unsigned) \<Rightarrow> bool \<Rightarrow> 'a list \<Rightarrow> nat \<Rightarrow> 'b memory \<Rightarrow> c_int \<Rightarrow> size_t \<Rightarrow> ('b, 'e) pool" where
  "TransformThreadPoolImpl det forward_iterator xs result m thread_count maxpart =
     \<lparr> queue = Transform_Queue_ctor forward_iterator (length xs) result (unat maxpart),
       workers = replicate (unat (det thread_count)) Idle,
       outputs = m,
       pending_exception = None,
       issued = [],
       raised = [] \<rparr>"

section \<open>The entry points\<close>

text \<open>
  The branch of \<open>parallel::transform\<close>: \<open>None\<close> when the range is run inline, otherwise
  the thread count and the divisor that are handed to the constructor of
  \<open>TransformThreadPoolImpl\<close>. \<open>3 * (tc + 1)\<close> is computed in \<open>unsigned\<close> and
  converted to \<open>std::size_t\<close>.
\<close>

definition pool_arguments ::
  "(c_int \<Rightarrow> c_unsigned) \<Rightarrow> c_int \<Rightarrow> size_t \<Rightarrow> (c_int \<times> size_t) option" where
  "pool_arguments det thread_count maxpart =
     (let tc = det thread_count in
      if tc \<le> 1 then None
      else Some (thread_count, if maxpart \<noteq> 1 then maxpart else ucast (3 * (tc + 1))))"

text \<open>
  The temporary pool of \<open>parallel::transform\<close>: constructed, then run along the schedule
  \<open>sched\<close>, the interleaving of its workers.
\<close>

definition pool_run ::
  "(c_int \<Rightarrow> c_unsigned) \<Rightarrow> bool \<Rightarrow> nat list \<Rightarrow> c_int \<Rightarrow> size_t \<Rightarrow>
   ('a \<Rightarrow> 'e + 'b) \<Rightarrow> 'a list \<Rightarrow> nat \<Rightarrow> 'b memory \<Rightarrow> ('b, 'e) pool" where
  "pool_run det forward_iterator sched thread_count maxpart f xs result m =
     run f xs sched (TransformThreadPoolImpl det forward_iterator xs result m thread_count maxpart)"

text \<open>
  \<open>parallel::transform<thread_count, maxpart>(first, last, result, fun)\<close>. The inline
  branch is \<open>std::transform\<close>. The other branch constructs the temporary
  \<open>TransformThreadPoolImpl\<close> and returns \<open>result\<close>. The constructor takes \<open>first\<close>
  and \<open>result\<close> by non-const reference: the cursors of the dispenser are these very
  variables, so the value returned is the output cursor of the dispenser. The temporary is
  destroyed before the return; as the comment of \<open>join()\<close> says, the destructor waits
  for the workers and throws the pending exception, which is \<open>join\<close>. The result is
  \<open>None\<close> when the schedule ends before all workers have stopped.
\<close>

definition transform ::
  "(c_int \<Rightarrow> c_unsigned) \<Rightarrow> bool \<Rightarrow> nat list \<Rightarrow> c_int \<Rightarrow> size_t \<Rightarrow>
   ('a \<Rightarrow> 'e + 'b) \<Rightarrow> 'a list \<Rightarrow> nat \<Rightarrow> 'b memory \<Rightarrow> ('b memory \<times> ('e + nat)) option" where
  "transform det forward_iterator sched thread_count maxpart f xs result m =
     (case pool_arguments det thread_count maxpart of
        None \<Rightarrow> Some (std_transform f xs result m)
      | Some (t, mp) \<Rightarrow>
          (let s = pool_run det forward_iterator sched t mp f xs result m
           in case join s of
                None \<Rightarrow> None
              | Some (Inl e) \<Rightarrow> Some (outputs s, Inl e)
              | Some (Inr u) \<Rightarrow> Some (outputs s, Inr (q_result (queue s)))))"

text \<open>
  Modelled from the spec: \<open>IntegralIterator\<close> is not among the sources. The spec (4.1)
  makes it a positional handle over an integer: dereferencing gives the integer, a step
  adds one, two handles are equal when their integers are. \<open>integral_range first last\<close>
  is the traversal from \<open>IntegralIterator(first)\<close> until the handle equals
  \<open>IntegralIterator(last)\<close>, as the loop of \<open>std::transform\<close> makes it; it lists the
  integers dereferenced. The integers are words of the width of the common type.
\<close>

function integral_range :: "'w::len word \<Rightarrow> 'w word \<Rightarrow> 'w word list" where
  "integral_range i_first i_last =
     (if i_first = i_last then [] else i_first # integral_range (i_first + 1) i_last)"
  by pat_completeness auto
termination
proof (relation "measure (\<lambda>(i_first, i_last). unat (i_last - i_first))")
  show "wf (measure (\<lambda>(i_first :: 'w::len word, i_last). unat (i_last - i_first)))"
    by simp
next
  fix i_first i_last :: "'w::len word"
  assume "i_first \<noteq> i_last"
  then have nz: "i_last - i_first \<noteq> 0" by simp
  have "i_last - (i_first + 1) = (i_last - i_first) - 1" by simp
  then have "unat (i_last - (i_first + 1)) = unat ((i_last - i_first) - 1)"
    by (rule arg_cong)
  also have "\<dots> < unat (i_last - i_first)"
    using nz by (simp add: unat_minus_one unat_gt_0)
  finally show "((i_first + 1, i_last), (i_first, i_last))
      \<in> measure (\<lambda>(i_first, i_last). unat (i_last - i_first))"
    by simp
qed

declare integral_range.simps [simp del]

text \<open>
  The integer-range form of \<open>parallel::transform\<close>: both bounds are converted to
  \<open>std::common_type<InputIterator, Last>::type\<close>, wrapped, and handed to the range-pair
  form. The common type is the word type \<open>'w\<close>; the bounds come as the integers they
  denote in their own types, and the conversion of an integer to the common type is
  \<open>word_of_int\<close>. The divisor of this form is an \<open>unsigned\<close>.
\<close>

definition transform_integral ::
  "(c_int \<Rightarrow> c_unsigned) \<Rightarrow> bool \<Rightarrow> nat list \<Rightarrow> c_int \<Rightarrow> c_unsigned \<Rightarrow>
   ('w::len word \<Rightarrow> 'e + 'b) \<Rightarrow> int \<Rightarrow> int \<Rightarrow> nat \<Rightarrow> 'b memory \<Rightarrow> ('b memory \<times> ('e + nat)) option" where
  "transform_integral det forward_iterator sched thread_count maxpart f i_first i_last result m =
     transform det forward_iterator sched thread_count (ucast maxpart) f
       (integral_range (word_of_int i_first) (word_of_int i_last)) result m"

text \<open>
  The value of a word of the common type: two's complement when the common type is signed.
\<close>

definition common_value :: "bool \<Rightarrow> 'w::len word \<Rightarrow> int" where
  "common_value is_signed w = (if is_signed then sint w else uint w)"

section \<open>Invariants of the dispenser and of the pool\<close>

text \<open>
  The remaining count of the dispenser (spec 4.2, step 2): the distance to the end for a
  positional range, the tracked counter for a sequential one.
\<close>

definition remaining_count :: "Transform_Queue \<Rightarrow> nat" where
  "remaining_count q = (case q_remaining q of None \<Rightarrow> q_last q - q_current q | Some r \<Rightarrow> r)"

text \<open>
  A dispenser over a range of \<open>n\<close> elements with output start \<open>r0\<close> and divisor
  \<open>mp\<close> is consistent: the cursors move together and the tracked counter, where there
  is one, is the number of unclaimed positions.
\<close>

definition queue_ok :: "nat \<Rightarrow> nat \<Rightarrow> nat \<Rightarrow> Transform_Queue \<Rightarrow> bool" where
  "queue_ok n r0 mp q \<longleftrightarrow>
     q_last q = n \<and> q_current q \<le> n \<and> q_result q = r0 + q_current q \<and> q_maxpart q = mp \<and>
     (case q_remaining q of None \<Rightarrow> True | Some r \<Rightarrow> r = n - q_current q)"

text \<open>A worker inside a chunk works on positions that the dispenser has issued.\<close>

fun worker_ok :: "nat \<Rightarrow> nat \<Rightarrow> worker \<Rightarrow> bool" where
  "worker_ok r0 cur (Working i e out) \<longleftrightarrow> i \<le> e \<and> e \<le> cur \<and> out = r0 + i"
| "worker_ok r0 cur Idle \<longleftrightarrow> True"
| "worker_ok r0 cur Stopped \<longleftrightarrow> True"

definition pool_ok :: "nat \<Rightarrow> nat \<Rightarrow> nat \<Rightarrow> ('b, 'e) pool \<Rightarrow> bool" where
  "pool_ok n r0 mp s \<longleftrightarrow>
     queue_ok n r0 mp (queue s) \<and>
     list_all (worker_ok r0 (q_current (queue s))) (workers s)"

text \<open>
  The input positions of a chunk; the chunks issued so far list the positions before the
  cursor, in order, and each has the size that the policy gives.
\<close>

definition chunk_positions :: "chunk \<Rightarrow> nat list" where
  "chunk_positions c = [in_first c..<in_last c]"

definition covers :: "nat \<Rightarrow> chunk \<Rightarrow> bool" where
  "covers p c \<longleftrightarrow> in_first c \<le> p \<and> p < in_last c"

definition chunk_ok :: "nat \<Rightarrow> nat \<Rightarrow> nat \<Rightarrow> chunk \<Rightarrow> bool" where
  "chunk_ok n r0 mp c \<longleftrightarrow>
     in_last c = in_first c + chunk_size (n - in_first c) mp \<and> in_last c \<le> n \<and>
     out_first c = r0 + in_first c"

definition issued_ok :: "nat \<Rightarrow> nat \<Rightarrow> nat \<Rightarrow> ('b, 'e) pool \<Rightarrow> bool" where
  "issued_ok n r0 mp s \<longleftrightarrow>
     concat (map chunk_positions (issued s)) = [0..<q_current (queue s)] \<and>
     list_all (chunk_ok n r0 mp) (issued s)"

text \<open>
  The failure slot holds the first failure raised; every failure raised is a failure of
  the element function on an input element.
\<close>

definition raised_ok :: "('a \<Rightarrow> 'e + 'b) \<Rightarrow> 'a list \<Rightarrow> ('b, 'e) pool \<Rightarrow> bool" where
  "raised_ok f xs s \<longleftrightarrow>
     pending_exception s = (case raised s of [] \<Rightarrow> None | e # es \<Rightarrow> Some e) \<and>
     list_all (\<lambda>e. Inl e \<in> f ` set xs) (raised s)"

text \<open>
  Every output position either holds what it held at the start or holds the result of the
  element function for the input position it belongs to.
\<close>

definition written_ok ::
  "('a \<Rightarrow> 'e + 'b) \<Rightarrow> 'a list \<Rightarrow> nat \<Rightarrow> 'b memory \<Rightarrow> ('b, 'e) pool \<Rightarrow> bool" where
  "written_ok f xs r0 m0 s \<longleftrightarrow>
     (\<forall>a. outputs s a = m0 a \<or>
        (\<exists>p < q_current (queue s). a = r0 + p \<and> f (xs ! p) = Inr (the (outputs s a)) \<and>
           outputs s a \<noteq> None))"

text \<open>
  As long as no failure is raised, every issued position is written or still ahead of the
  worker that claimed it, and a worker has stopped only on an exhausted dispenser.
\<close>

definition in_flight :: "worker list \<Rightarrow> nat \<Rightarrow> bool" where
  "in_flight ws p \<longleftrightarrow>
     (\<exists>w < length ws. \<exists>i e out. ws ! w = Working i e out \<and> i \<le> p \<and> p < e)"

definition drained_ok ::
  "('a \<Rightarrow> 'e + 'b) \<Rightarrow> 'a list \<Rightarrow> nat \<Rightarrow> ('b, 'e) pool \<Rightarrow> bool" where
  "drained_ok f xs r0 s \<longleftrightarrow>
     (raised s = [] \<longrightarrow>
        (\<forall>p < q_current (queue s).
           f (xs ! p) = Inr (the (outputs s (r0 + p))) \<and> outputs s (r0 + p) \<noteq> None \<or>
           in_flight (workers s) p) \<and>
        (Stopped \<in> set (workers s) \<longrightarrow> q_current (queue s) = length xs))"

definition pool_inv ::
  "('a \<Rightarrow> 'e + 'b) \<Rightarrow> 'a list \<Rightarrow> nat \<Rightarrow> 'b memory \<Rightarrow> nat \<Rightarrow> ('b, 'e) pool \<Rightarrow> bool" where
  "pool_inv f xs r0 m0 mp s \<longleftrightarrow>
     pool_ok (length xs) r0 mp s \<and> issued_ok (length xs) r0 mp s \<and> raised_ok f xs s \<and>
     written_ok f xs r0 m0 s \<and> drained_ok f xs r0 s"

text \<open>A measure that every step of a worker that has not stopped decreases.\<close>

fun worker_measure :: "worker \<Rightarrow> nat" where
  "worker_measure Stopped = 0"
| "worker_measure Idle = 1"
| "worker_measure (Working i e out) = 2 * (e - i) + 2"

definition pool_measure :: "('b, 'e) pool \<Rightarrow> nat" where
  "pool_measure s =
     4 * (q_last (queue s) - q_current (queue s)) + sum_list (map worker_measure (workers s))"

section \<open>Sample inputs\<close>

text \<open>An element function that doubles its argument and raises on 7.\<close>

definition demo :: "nat \<Rightarrow> string + nat" where
  "demo x = (if x = 7 then Inl ''boom'' else Inr (2 * x))"

section \<open>Properties of the bookkeeping object\<close>

text \<open>
  Claim C10. For every name, a freshly constructed \<open>Malloc\<close> holds no memory: its
  pointer is null, its three counters are zero, \<open>size()\<close> is 0 and \<open>is_empty()\<close> is
  true.
\<close>

theorem Malloc_ctor_empty:
  "m_pMalloc (Malloc_ctor name) = None \<and>
   m_numTotValues (Malloc_ctor name) = 0 \<and>
   m_numTotReserved (Malloc_ctor name) = 0 \<and>
   m_numAllocated (Malloc_ctor name) = 0 \<and>
   m_name (Malloc_ctor name) = name \<and>
   size_Malloc (Malloc_ctor name) = 0 \<and>
   is_empty (Malloc_ctor name)"
  by (simp add: Malloc_ctor_def size_Malloc_def is_empty_def)

section \<open>Properties of the demangler\<close>

lemma strchr_None: "strchr s c = None \<longleftrightarrow> c \<notin> set s"
  by (induction s) auto

lemma strchr_Some: "strchr s c = Some p \<Longrightarrow> take p s = takeWhile (\<lambda>x. x \<noteq> c) s"
  by (induction s arbitrary: p) (auto split: if_splits)

lemma strchr_None_takeWhile: "strchr s c = None \<Longrightarrow> takeWhile (\<lambda>x. x \<noteq> c) s = s"
  by (induction s) (auto split: if_splits)

text \<open>
  Claim C9. \<open>demang\<close> returns the empty string for the null pointer; when
  \<open>__cxa_demangle\<close> reports a nonzero status it returns the mangled name unchanged;
  when the status is zero it returns the demangled name cut before its first \<open>(\<close>,
  which is the whole demangled name when it has no \<open>(\<close>.
\<close>

theorem demang_cases:
  "demang cxa None = Inr [] \<and>
   (\<forall>mn name status. cxa mn = (name, status) \<and> status \<noteq> 0 \<longrightarrow>
      demang cxa (Some mn) = Inr mn) \<and>
   (\<forall>mn nm. cxa mn = (Some nm, 0) \<longrightarrow>
      demang cxa (Some mn) = Inr (takeWhile (\<lambda>x. x \<noteq> CHR ''('') nm) \<and>
      (CHR ''('' \<notin> set nm \<longrightarrow> demang cxa (Some mn) = Inr nm))"
proof (intro conjI allI impI)
  show "demang cxa None = Inr []"
    by (simp add: demang_def)
next
  fix mn name status
  assume "cxa mn = (name, status) \<and> status \<noteq> 0"
  then show "demang cxa (Some mn) = Inr mn"
    by (simp add: demang_def)
next
  fix mn nm
  assume c: "cxa mn = (Some nm, 0)"
  show "demang cxa (Some mn) = Inr (takeWhile (\<lambda>x. x \<noteq> CHR ''('') nm)"
  proof (cases "strchr nm (CHR ''('')")
    case None
    with c show ?thesis by (simp add: demang_def strchr_None_takeWhile)
  next
    case (Some p)
    with c strchr_Some [OF Some] show ?thesis by (simp add: demang_def)
  qed
next
  fix mn nm
  assume "cxa mn = (Some nm, 0)" and "CHR ''('' \<notin> set nm"
  then show "demang cxa (Some mn) = Inr nm"
    by (simp add: demang_def strchr_None [symmetric])
qed

theorem demang_cases_witness:
  "demang (\<lambda>s. (None, -2)) (Some ''main'') = Inr ''main'' \<and>
   demang (\<lambda>s. (Some ''foo(int)'', 0)) (Some ''_Z3fooi'') = Inr ''foo'' \<and>
   demang (\<lambda>s. (Some ''counter'', 0)) (Some ''counter'') = Inr ''counter'' \<and>
   demang (\<lambda>s. (Some ''counter'', 0)) None = Inr []"
  using demang_cases [of "\<lambda>s. (None, -2)"]
    demang_cases [of "\<lambda>s. (Some ''foo(int)'', 0)"]
    demang_cases [of "\<lambda>s. (Some ''counter'', 0)"]
  by simp

section \<open>The steps of the pool preserve the invariants\<close>

lemma chunk_size_bounds: "0 < rem \<Longrightarrow> 1 \<le> chunk_size rem mp \<and> chunk_size rem mp \<le> rem"
proof -
  assume "0 < rem"
  moreover have "rem div mp \<le> rem" by simp
  ultimately show ?thesis by (simp add: chunk_size_def)
qed

lemma claim_exhausted:
  "queue_ok n r0 mp q \<Longrightarrow> q_current q = n \<Longrightarrow> claim q = (Exhausted, q)"
  by (simp add: claim_def queue_ok_def)

lemma claim_claimed:
  assumes "queue_ok n r0 mp q" and "q_current q < n"
  defines "sz \<equiv> chunk_size (n - q_current q) mp"
  shows "claim q =
    (Claimed (Chunk (q_current q) (q_current q + sz) (r0 + q_current q)),
     q\<lparr> q_current := q_current q + sz, q_result := r0 + q_current q + sz,
        q_remaining := map_option (\<lambda>r. r - sz) (q_remaining q) \<rparr>)"
  using assms(1,2) unfolding sz_def
  by (auto simp: claim_def queue_ok_def Let_def split: option.splits)

lemma queue_ok_claimed:
  assumes "queue_ok n r0 mp q" and "q_current q < n"
  defines "sz \<equiv> chunk_size (n - q_current q) mp"
  shows "queue_ok n r0 mp
     (q\<lparr> q_current := q_current q + sz, q_result := r0 + q_current q + sz,
        q_remaining := map_option (\<lambda>r. r - sz) (q_remaining q) \<rparr>)"
proof -
  from assms(2) have "sz \<le> n - q_current q"
    unfolding sz_def using chunk_size_bounds [of "n - q_current q" mp] by simp
  with assms(1,2) show ?thesis
    by (auto simp: queue_ok_def split: option.splits)
qed

lemma worker_step_cases [consumes 1, case_names noop exhausted claimed finished wrote failed]:
  assumes ok: "pool_ok n r0 mp s"
  obtains
    (noop) "\<not> w < length (workers s) \<or> workers s ! w = Stopped" "worker_step f xs w s = s"
  | (exhausted) "w < length (workers s)" "workers s ! w = Idle" "q_current (queue s) = n"
      "worker_step f xs w s = s\<lparr> workers := (workers s)[w := Stopped] \<rparr>"
  | (claimed) sz where "w < length (workers s)" "workers s ! w = Idle" "q_current (queue s) < n"
      "sz = chunk_size (n - q_current (queue s)) mp" "1 \<le> sz" "q_current (queue s) + sz \<le> n"
      "worker_step f xs w s =
         s\<lparr> queue := (queue s)\<lparr> q_current := q_current (queue s) + sz,
                                 q_result := r0 + q_current (queue s) + sz,
                                 q_remaining := map_option (\<lambda>r. r - sz) (q_remaining (queue s)) \<rparr>,
            workers := (workers s)[w := Working (q_current (queue s)) (q_current (queue s) + sz)
                                                (r0 + q_current (queue s))],
            issued := issued s @ [Chunk (q_current (queue s)) (q_current (queue s) + sz)
                                        (r0 + q_current (queue s))] \<rparr>"
  | (finished) i out where "w < length (workers s)" "workers s ! w = Working i i out"
      "worker_step f xs w s = s\<lparr> workers := (workers s)[w := Idle] \<rparr>"
  | (wrote) i e v where "w < length (workers s)" "workers s ! w = Working i e (r0 + i)"
      "i < e" "e \<le> q_current (queue s)" "f (xs ! i) = Inr v"
      "worker_step f xs w s =
         s\<lparr> outputs := (outputs s)(r0 + i \<mapsto> v),
            workers := (workers s)[w := Working (Suc i) e (Suc (r0 + i))] \<rparr>"
  | (failed) i e err where "w < length (workers s)" "workers s ! w = Working i e (r0 + i)"
      "i < e" "e \<le> q_current (queue s)" "f (xs ! i) = Inl err"
      "worker_step f xs w s =
         s\<lparr> pending_exception :=
              (case pending_exception s of None \<Rightarrow> Some err | Some e0 \<Rightarrow> Some e0),
            raised := raised s @ [err],
            workers := (workers s)[w := Stopped] \<rparr>"
proof (cases "w < length (workers s)")
  case False
  then have "worker_step f xs w s = s" by (simp add: worker_step_def)
  with False show ?thesis by (intro noop) simp_all
next
  case inb: True
  from ok have qok: "queue_ok n r0 mp (queue s)" by (simp add: pool_ok_def)
  from ok inb have wok: "worker_ok r0 (q_current (queue s)) (workers s ! w)"
    by (simp add: pool_ok_def list_all_length)
  show ?thesis
  proof (cases "workers s ! w")
    case Stopped
    with inb have "worker_step f xs w s = s" by (simp add: worker_step_def)
    with Stopped show ?thesis by (intro noop) simp_all
  next
    case Idle
    from qok have "q_current (queue s) \<le> n" by (simp add: queue_ok_def)
    then consider "q_current (queue s) = n" | "q_current (queue s) < n" by linarith
    then show ?thesis
    proof cases
      case 1
      with inb Idle claim_exhausted [OF qok 1] show ?thesis
        by (intro exhausted) (simp_all add: worker_step_def)
    next
      case 2
      define sz where "sz = chunk_size (n - q_current (queue s)) mp"
      from 2 have b: "1 \<le> sz" "q_current (queue s) + sz \<le> n"
        unfolding sz_def using chunk_size_bounds [of "n - q_current (queue s)" mp] by auto
      from inb Idle claim_claimed [OF qok 2] b 2 show ?thesis
        by (intro claimed [of sz]) (simp_all add: worker_step_def sz_def)
    qed
  next
    case (Working i e out)
    with wok have w: "i \<le> e" "e \<le> q_current (queue s)" "out = r0 + i" by simp_all
    show ?thesis
    proof (cases "i = e")
      case True
      with inb Working show ?thesis
        by (intro finished [of i out]) (simp_all add: worker_step_def)
    next
      case False
      with w have lt: "i < e" by simp
      show ?thesis
      proof (cases "f (xs ! i)")
        case (Inl err)
        with inb Working w lt show ?thesis
          by (intro failed [of i e err]) (simp_all add: worker_step_def)
      next
        case (Inr v)
        with inb Working w lt show ?thesis
          by (intro wrote [of i e v]) (simp_all add: worker_step_def)
      qed
    qed
  qed
qed

lemma list_all_update: "list_all P xs \<Longrightarrow> P x \<Longrightarrow> list_all P (xs[i := x])"
  by (auto simp: list_all_iff dest: set_update_subset_insert [THEN subsetD])

lemma worker_ok_mono: "worker_ok r0 cur w \<Longrightarrow> cur \<le> cur' \<Longrightarrow> worker_ok r0 cur' w"
  by (cases w) auto

lemma list_all_worker_ok_mono:
  "list_all (worker_ok r0 cur) ws \<Longrightarrow> cur \<le> cur' \<Longrightarrow> list_all (worker_ok r0 cur') ws"
  by (auto simp: list_all_iff intro: worker_ok_mono)

lemma pool_ok_step:
  assumes ok: "pool_ok n r0 mp s"
  shows "pool_ok n r0 mp (worker_step f xs w s)"
  using ok
proof (cases rule: worker_step_cases [where f = f and xs = xs and w = w])
  case noop
  with ok show ?thesis by simp
next
  case exhausted
  with ok show ?thesis by (simp add: pool_ok_def list_all_update)
next
  case (claimed sz)
  from ok have qok: "queue_ok n r0 mp (queue s)" by (simp add: pool_ok_def)
  from ok have "list_all (worker_ok r0 (q_current (queue s))) (workers s)"
    by (simp add: pool_ok_def)
  then have "list_all (worker_ok r0 (q_current (queue s) + sz)) (workers s)"
    by (rule list_all_worker_ok_mono) simp
  then have "list_all (worker_ok r0 (q_current (queue s) + sz))
     ((workers s)[w := Working (q_current (queue s)) (q_current (queue s) + sz)
        (r0 + q_current (queue s))])"
    by (rule list_all_update) simp
  with claimed queue_ok_claimed [OF qok claimed(3)] show ?thesis
    by (simp add: pool_ok_def)
next
  case (finished i out)
  with ok show ?thesis by (simp add: pool_ok_def list_all_update)
next
  case (wrote i e v)
  with ok show ?thesis by (simp add: pool_ok_def list_all_update)
next
  case (failed i e err)
  with ok show ?thesis by (simp add: pool_ok_def list_all_update)
qed

lemma issued_ok_step:
  assumes ok: "pool_ok n r0 mp s" and io: "issued_ok n r0 mp s"
  shows "issued_ok n r0 mp (worker_step f xs w s)"
  using ok
proof (cases rule: worker_step_cases [where f = f and xs = xs and w = w])
  case (claimed sz)
  have "[0..<q_current (queue s) + sz] = [0..<q_current (queue s)] @ [q_current (queue s)..<q_current (queue s) + sz]"
    by (rule upt_add_eq_append) simp
  with claimed io show ?thesis
    by (simp add: issued_ok_def chunk_positions_def chunk_ok_def)
qed (use io in \<open>simp_all add: issued_ok_def\<close>)

lemma raised_ok_step:
  assumes ok: "pool_ok n r0 mp s" and ro: "raised_ok f xs s" and n: "n = length xs"
  shows "raised_ok f xs (worker_step f xs w s)"
  using ok
proof (cases rule: worker_step_cases [where f = f and xs = xs and w = w])
  case (failed i e err)
  from failed(3,4) ok n have "i < length xs" by (simp add: pool_ok_def queue_ok_def)
  then have "f (xs ! i) \<in> f ` set xs" by simp
  with failed ro show ?thesis
    by (auto simp: raised_ok_def split: list.splits)
qed (use ro in \<open>simp_all add: raised_ok_def\<close>)

lemma written_ok_step:
  assumes ok: "pool_ok n r0 mp s" and wo: "written_ok f xs r0 m0 s"
  shows "written_ok f xs r0 m0 (worker_step f xs w s)"
  using ok
proof (cases rule: worker_step_cases [where f = f and xs = xs and w = w])
  case (claimed sz)
  show ?thesis unfolding written_ok_def
  proof
    fix a
    from wo have "outputs s a = m0 a \<or>
        (\<exists>p < q_current (queue s). a = r0 + p \<and> f (xs ! p) = Inr (the (outputs s a)) \<and>
           outputs s a \<noteq> None)" by (simp add: written_ok_def)
    then show "outputs (worker_step f xs w s) a = m0 a \<or>
        (\<exists>p < q_current (queue (worker_step f xs w s)). a = r0 + p \<and>
           f (xs ! p) = Inr (the (outputs (worker_step f xs w s) a)) \<and>
           outputs (worker_step f xs w s) a \<noteq> None)"
      using claimed by (auto intro: trans_less_add1)
  qed
next
  case (wrote i e v)
  show ?thesis unfolding written_ok_def
  proof
    fix a
    from wo have "outputs s a = m0 a \<or>
        (\<exists>p < q_current (queue s). a = r0 + p \<and> f (xs ! p) = Inr (the (outputs s a)) \<and>
           outputs s a \<noteq> None)" by (simp add: written_ok_def)
    moreover from wrote have "i < q_current (queue s)" by simp
    ultimately show "outputs (worker_step f xs w s) a = m0 a \<or>
        (\<exists>p < q_current (queue (worker_step f xs w s)). a = r0 + p \<and>
           f (xs ! p) = Inr (the (outputs (worker_step f xs w s) a)) \<and>
           outputs (worker_step f xs w s) a \<noteq> None)"
      using wrote by auto
  qed
qed (use wo in \<open>simp_all add: written_ok_def\<close>)

lemma in_flight_update_other:
  assumes "in_flight ws p" and "\<And>i e out. ws ! w = Working i e out \<Longrightarrow> \<not> (i \<le> p \<and> p < e)"
  shows "in_flight (ws[w := x]) p"
proof -
  from assms(1) obtain w' i e out where
    w': "w' < length ws" "ws ! w' = Working i e out" "i \<le> p" "p < e"
    by (auto simp: in_flight_def)
  with assms(2) have "w' \<noteq> w" by auto
  with w' have "w' < length (ws[w := x])" "ws[w := x] ! w' = Working i e out"
    by simp_all
  with w'(3,4) show ?thesis unfolding in_flight_def by blast
qed

lemma in_flight_update_new:
  assumes "w < length ws" and "i \<le> p" and "p < e"
  shows "in_flight (ws[w := Working i e out]) p"
proof -
  from assms(1) have "w < length (ws[w := Working i e out])"
    "ws[w := Working i e out] ! w = Working i e out" by simp_all
  with assms(2,3) show ?thesis unfolding in_flight_def by blast
qed

lemma in_flight_update_same:
  assumes "in_flight ws p" and "w < length ws" and "ws ! w = Working i e out" and "p \<noteq> i"
  shows "in_flight (ws[w := Working (Suc i) e out']) p"
proof (cases "i \<le> p \<and> p < e")
  case True
  with assms(4) have "Suc i \<le> p" "p < e" by simp_all
  with assms(2) show ?thesis by (intro in_flight_update_new)
next
  case False
  with assms(1,3) show ?thesis by (intro in_flight_update_other) auto
qed

lemma Stopped_in_update:
  "Stopped \<in> set (ws[w := x]) \<Longrightarrow> x \<noteq> Stopped \<Longrightarrow> Stopped \<in> set ws"
  using set_update_subset_insert [of ws w x] by auto

lemma drained_ok_step:
  assumes ok: "pool_ok n r0 mp s" and dr: "drained_ok f xs r0 s" and n: "n = length xs"
  shows "drained_ok f xs r0 (worker_step f xs w s)"
  using ok
proof (cases rule: worker_step_cases [where f = f and xs = xs and w = w])
  case noop
  with dr show ?thesis by simp
next
  case exhausted
  show ?thesis unfolding drained_ok_def
  proof (intro impI conjI allI)
    assume "raised (worker_step f xs w s) = []"
    with exhausted have r: "raised s = []" by simp
    fix p assume "p < q_current (queue (worker_step f xs w s))"
    with exhausted have "p < q_current (queue s)" by simp
    with dr r have "f (xs ! p) = Inr (the (outputs s (r0 + p))) \<and> outputs s (r0 + p) \<noteq> None \<or>
           in_flight (workers s) p" by (simp add: drained_ok_def)
    then show "f (xs ! p) = Inr (the (outputs (worker_step f xs w s) (r0 + p))) \<and>
          outputs (worker_step f xs w s) (r0 + p) \<noteq> None \<or>
          in_flight (workers (worker_step f xs w s)) p"
      using exhausted by (auto intro: in_flight_update_other)
  next
    from exhausted n show "q_current (queue (worker_step f xs w s)) = length xs" by simp
  qed
next
  case (claimed sz)
  show ?thesis unfolding drained_ok_def
  proof (intro impI conjI allI)
    assume "raised (worker_step f xs w s) = []"
    with claimed have r: "raised s = []" by simp
    fix p assume "p < q_current (queue (worker_step f xs w s))"
    with claimed have p: "p < q_current (queue s) + sz" by simp
    show "f (xs ! p) = Inr (the (outputs (worker_step f xs w s) (r0 + p))) \<and>
          outputs (worker_step f xs w s) (r0 + p) \<noteq> None \<or>
          in_flight (workers (worker_step f xs w s)) p"
    proof (cases "p < q_current (queue s)")
      case True
      with dr r have "f (xs ! p) = Inr (the (outputs s (r0 + p))) \<and> outputs s (r0 + p) \<noteq> None \<or>
           in_flight (workers s) p" by (simp add: drained_ok_def)
      then show ?thesis using claimed by (auto intro: in_flight_update_other)
    next
      case False
      with p claimed(1) have "in_flight ((workers s)[w := Working (q_current (queue s))
          (q_current (queue s) + sz) (r0 + q_current (queue s))]) p"
        by (intro in_flight_update_new) simp_all
      with claimed show ?thesis by simp
    qed
  next
    assume "raised (worker_step f xs w s) = []"
    with claimed have r: "raised s = []" by simp
    assume "Stopped \<in> set (workers (worker_step f xs w s))"
    with claimed have "Stopped \<in> set (workers s)" by (auto dest: Stopped_in_update)
    with dr r have "q_current (queue s) = length xs" by (simp add: drained_ok_def)
    with claimed(3) n show "q_current (queue (worker_step f xs w s)) = length xs" by simp
  qed
next
  case (finished i out)
  show ?thesis unfolding drained_ok_def
  proof (intro impI conjI allI)
    assume "raised (worker_step f xs w s) = []"
    with finished have r: "raised s = []" by simp
    fix p assume "p < q_current (queue (worker_step f xs w s))"
    with finished have "p < q_current (queue s)" by simp
    with dr r have "f (xs ! p) = Inr (the (outputs s (r0 + p))) \<and> outputs s (r0 + p) \<noteq> None \<or>
           in_flight (workers s) p" by (simp add: drained_ok_def)
    then show "f (xs ! p) = Inr (the (outputs (worker_step f xs w s) (r0 + p))) \<and>
          outputs (worker_step f xs w s) (r0 + p) \<noteq> None \<or>
          in_flight (workers (worker_step f xs w s)) p"
      using finished by (auto intro: in_flight_update_other)
  next
    assume "raised (worker_step f xs w s) = []"
    with finished have r: "raised s = []" by simp
    assume "Stopped \<in> set (workers (worker_step f xs w s))"
    with finished have "Stopped \<in> set (workers s)" by (auto dest: Stopped_in_update)
    with dr r finished show "q_current (queue (worker_step f xs w s)) = length xs"
      by (simp add: drained_ok_def)
  qed
next
  case (wrote i e v)
  show ?thesis unfolding drained_ok_def
  proof (intro impI conjI allI)
    assume "raised (worker_step f xs w s) = []"
    with wrote have r: "raised s = []" by simp
    fix p assume "p < q_current (queue (worker_step f xs w s))"
    with wrote have p: "p < q_current (queue s)" by simp
    show "f (xs ! p) = Inr (the (outputs (worker_step f xs w s) (r0 + p))) \<and>
          outputs (worker_step f xs w s) (r0 + p) \<noteq> None \<or>
          in_flight (workers (worker_step f xs w s)) p"
    proof (cases "p = i")
      case True
      with wrote show ?thesis by simp
    next
      case False
      from dr r p have "f (xs ! p) = Inr (the (outputs s (r0 + p))) \<and> outputs s (r0 + p) \<noteq> None \<or>
           in_flight (workers s) p" by (simp add: drained_ok_def)
      then show ?thesis
      proof
        assume "f (xs ! p) = Inr (the (outputs s (r0 + p))) \<and> outputs s (r0 + p) \<noteq> None"
        with False wrote show ?thesis by simp
      next
        assume "in_flight (workers s) p"
        then have "in_flight ((workers s)[w := Working (Suc i) e (Suc (r0 + i))]) p"
          using wrote(1,2) False by (rule in_flight_update_same)
        with wrote show ?thesis by simp
      qed
    qed
  next
    assume "raised (worker_step f xs w s) = []"
    with wrote have r: "raised s = []" by simp
    assume "Stopped \<in> set (workers (worker_step f xs w s))"
    with wrote have "Stopped \<in> set (workers s)" by (auto dest: Stopped_in_update)
    with dr r wrote show "q_current (queue (worker_step f xs w s)) = length xs"
      by (simp add: drained_ok_def)
  qed
next
  case (failed i e err)
  then show ?thesis by (simp add: drained_ok_def)
qed

lemma pool_inv_step:
  "pool_inv f xs r0 m0 mp s \<Longrightarrow> pool_inv f xs r0 m0 mp (worker_step f xs w s)"
  unfolding pool_inv_def
  by (intro conjI pool_ok_step issued_ok_step raised_ok_step written_ok_step drained_ok_step)
     (simp_all, blast+)

lemma run_Nil: "run f xs [] s = s"
  by (simp add: run_def)

lemma run_Cons: "run f xs (w # sched) s = run f xs sched (worker_step f xs w s)"
  by (simp add: run_def)

lemma run_append: "run f xs (sched @ sched') s = run f xs sched' (run f xs sched s)"
  by (simp add: run_def)

lemma pool_inv_run:
  "pool_inv f xs r0 m0 mp s \<Longrightarrow> pool_inv f xs r0 m0 mp (run f xs sched s)"
  by (induction sched arbitrary: s) (simp_all add: run_Nil run_Cons pool_inv_step)

lemma pool_inv_ctor:
  "pool_inv f xs result m (unat maxpart)
     (TransformThreadPoolImpl det fwd xs result m thread_count maxpart)"
  by (simp add: pool_inv_def pool_ok_def queue_ok_def issued_ok_def raised_ok_def
      written_ok_def drained_ok_def TransformThreadPoolImpl_def Transform_Queue_ctor_def
      list_all_iff)

lemma sum_worker_measure_update:
  assumes "w < length ws"
  shows "sum_list (map worker_measure (ws[w := x])) + worker_measure (ws ! w) =
         sum_list (map worker_measure ws) + worker_measure x"
  using assms
proof (induction ws arbitrary: w)
  case Nil
  then show ?case by simp
next
  case (Cons a ws)
  then show ?case by (cases w) auto
qed

lemma pool_measure_step:
  assumes ok: "pool_ok n r0 mp s" and w: "w < length (workers s)" "workers s ! w \<noteq> Stopped"
  shows "pool_measure (worker_step f xs w s) < pool_measure s"
  using ok
proof (cases rule: worker_step_cases [where f = f and xs = xs and w = w])
  case noop
  with w have False by simp
  then show ?thesis ..
next
  case exhausted
  with sum_worker_measure_update [OF w(1), of Stopped] show ?thesis
    by (simp add: pool_measure_def)
next
  case (claimed sz)
  from ok have "q_last (queue s) = n" by (simp add: pool_ok_def queue_ok_def)
  with claimed sum_worker_measure_update [OF w(1), of "Working (q_current (queue s))
      (q_current (queue s) + sz) (r0 + q_current (queue s))"]
  show ?thesis by (simp add: pool_measure_def)
next
  case (finished i out)
  with sum_worker_measure_update [OF w(1), of Idle] show ?thesis
    by (simp add: pool_measure_def)
next
  case (wrote i e v)
  with sum_worker_measure_update [OF w(1), of "Working (Suc i) e (Suc (r0 + i))"] show ?thesis
    by (simp add: pool_measure_def)
next
  case (failed i e err)
  with sum_worker_measure_update [OF w(1), of Stopped] show ?thesis
    by (simp add: pool_measure_def)
qed

lemma run_completes:
  "pool_ok n r0 mp s \<Longrightarrow> \<exists>sched. all_stopped (run f xs sched s)"
proof (induction "pool_measure s" arbitrary: s rule: less_induct)
  case less
  show ?case
  proof (cases "all_stopped s")
    case True
    then have "all_stopped (run f xs [] s)" by (simp add: run_Nil)
    then show ?thesis ..
  next
    case False
    then obtain w where w: "w < length (workers s)" "workers s ! w \<noteq> Stopped"
      by (auto simp: all_stopped_def list_all_length)
    from less.prems have "pool_measure (worker_step f xs w s) < pool_measure s"
      using w by (rule pool_measure_step)
    moreover from less.prems have "pool_ok n r0 mp (worker_step f xs w s)"
      by (rule pool_ok_step)
    ultimately obtain sched where "all_stopped (run f xs sched (worker_step f xs w s))"
      using less.hyps by blast
    then have "all_stopped (run f xs (w # sched) s)" by (simp add: run_Cons)
    then show ?thesis ..
  qed
qed

lemma raised_step: "\<exists>es. raised (worker_step f xs w s) = raised s @ es"
  by (simp add: worker_step_def split: worker.splits prod.splits claimed.splits sum.splits)

lemma raised_run: "\<exists>es. raised (run f xs sched s) = raised s @ es"
proof (induction sched arbitrary: s)
  case Nil
  show ?case by (simp add: run_Nil)
next
  case (Cons w sched)
  from raised_step obtain es where a: "raised (worker_step f xs w s) = raised s @ es" by blast
  from Cons obtain es' where
    "raised (run f xs sched (worker_step f xs w s)) = raised (worker_step f xs w s) @ es'"
    by blast
  with a show ?case by (simp add: run_Cons)
qed

lemma length_workers_step: "length (workers (worker_step f xs w s)) = length (workers s)"
  by (simp add: worker_step_def split: worker.splits prod.splits claimed.splits sum.splits)

lemma length_workers_run: "length (workers (run f xs sched s)) = length (workers s)"
  by (induction sched arbitrary: s) (simp_all add: run_Nil run_Cons length_workers_step)

lemma all_stopped_not_in_flight: "all_stopped s \<Longrightarrow> \<not> in_flight (workers s) p"
  by (auto simp: all_stopped_def in_flight_def list_all_length)

lemma all_stopped_Stopped: "all_stopped s \<Longrightarrow> workers s \<noteq> [] \<Longrightarrow> Stopped \<in> set (workers s)"
  by (cases "workers s") (auto simp: all_stopped_def)

text \<open>The state of a pool all of whose workers have stopped without a failure.\<close>

lemma pool_inv_final:
  assumes inv: "pool_inv f xs r0 m0 mp s" and st: "all_stopped s" and ne: "workers s \<noteq> []"
    and nr: "raised s = []"
  shows "q_current (queue s) = length xs"
    and "q_result (queue s) = r0 + length xs"
    and "\<And>p. p < length xs \<Longrightarrow>
           f (xs ! p) = Inr (the (outputs s (r0 + p))) \<and> outputs s (r0 + p) \<noteq> None"
    and "\<And>a. a < r0 \<or> r0 + length xs \<le> a \<Longrightarrow> outputs s a = m0 a"
proof -
  from inv have dr: "drained_ok f xs r0 s" and wo: "written_ok f xs r0 m0 s"
    and qok: "queue_ok (length xs) r0 mp (queue s)"
    by (simp_all add: pool_inv_def pool_ok_def)
  from st ne have "Stopped \<in> set (workers s)" by (rule all_stopped_Stopped)
  with dr nr show cur: "q_current (queue s) = length xs" by (simp add: drained_ok_def)
  with qok show "q_result (queue s) = r0 + length xs" by (simp add: queue_ok_def)
  show "f (xs ! p) = Inr (the (outputs s (r0 + p))) \<and> outputs s (r0 + p) \<noteq> None"
    if "p < length xs" for p
    using dr nr that cur all_stopped_not_in_flight [OF st] by (auto simp: drained_ok_def)
  show "outputs s a = m0 a" if "a < r0 \<or> r0 + length xs \<le> a" for a
  proof -
    from wo have "outputs s a = m0 a \<or>
        (\<exists>p < q_current (queue s). a = r0 + p \<and> f (xs ! p) = Inr (the (outputs s a)) \<and>
           outputs s a \<noteq> None)" by (simp add: written_ok_def)
    with that cur show ?thesis by auto
  qed
qed

lemma std_transform_total:
  "\<forall>x \<in> set xs. f x = Inr (g x) \<Longrightarrow>
   std_transform f xs r m =
     (\<lambda>a. if r \<le> a \<and> a < r + length xs then Some (g (xs ! (a - r))) else m a,
      Inr (r + length xs))"
proof (induction xs arbitrary: r m)
  case Nil
  show ?case by (auto simp: fun_eq_iff)
next
  case (Cons x xs)
  have "(\<lambda>a. if Suc r \<le> a \<and> a < Suc r + length xs then Some (g (xs ! (a - Suc r)))
              else (m(r \<mapsto> g x)) a) =
        (\<lambda>a. if r \<le> a \<and> a < r + length (x # xs) then Some (g ((x # xs) ! (a - r))) else m a)"
    by (rule ext) (auto simp: nth_Cons' Suc_diff_le)
  with Cons show ?case by simp
qed

lemma std_transform_returns:
  "std_transform f xs r m = (m', Inr r') \<Longrightarrow> r' = r + length xs"
proof (induction xs arbitrary: r m)
  case Nil
  then show ?case by simp
next
  case (Cons x xs)
  from Cons.prems obtain v where "f x = Inr v"
    and "std_transform f xs (Suc r) (m(r \<mapsto> v)) = (m', Inr r')"
    by (auto split: sum.splits)
  then have "r' = Suc r + length xs" by (intro Cons.IH)
  then show ?case by simp
qed

section \<open>The chunks partition the input range\<close>

lemma count_list_upt: "count_list [a..<b] p = (if a \<le> p \<and> p < b then 1 else 0)"
  by (induction b) auto

lemma count_list_positions:
  "count_list (concat (map chunk_positions cs)) p = length (filter (covers p) cs)"
  by (induction cs) (simp_all add: chunk_positions_def covers_def count_list_upt)

lemma pool_inv_reached:
  "pool_inv f xs result m (unat maxpart)
     (pool_run det fwd sched thread_count maxpart f xs result m)"
  unfolding pool_run_def by (rule pool_inv_run) (rule pool_inv_ctor)

text \<open>Every read of the input by a worker is inside the input range.\<close>

lemma worker_reads_in_range:
  assumes "w < length (workers (pool_run det fwd sched thread_count maxpart f xs result m))"
    and "workers (pool_run det fwd sched thread_count maxpart f xs result m) ! w = Working i e out"
    and "i \<noteq> e"
  shows "i < length xs"
proof -
  let ?s = "pool_run det fwd sched thread_count maxpart f xs result m"
  have "pool_ok (length xs) result (unat maxpart) ?s"
    using pool_inv_reached [of f xs result m maxpart det fwd sched thread_count]
    by (simp add: pool_inv_def)
  then have "q_current (queue ?s) \<le> length xs"
    and "worker_ok result (q_current (queue ?s)) (workers ?s ! w)"
    using assms(1) by (simp_all add: pool_ok_def queue_ok_def list_all_length)
  with assms(2,3) show ?thesis by simp
qed

lemma workers_reached:
  "length (workers (pool_run det fwd sched thread_count maxpart f xs result m)) =
   unat (det thread_count)"
  by (simp add: pool_run_def length_workers_run TransformThreadPoolImpl_def)

text \<open>
  Claim C2. In every state that the pool reaches, under any interleaving of its workers,
  the chunks issued so far, in the order of their issue, followed by the unclaimed rest
  of the range list every input position exactly once, in order: each position is in
  exactly one issued chunk or in the unclaimed rest, never in both. Once the dispenser is
  exhausted every position is in exactly one issued chunk, and a run that ends without a
  captured failure has exhausted the dispenser.
\<close>

theorem dispenser_partition:
  fixes f :: "'a \<Rightarrow> 'e + 'b" and xs sched det fwd result m thread_count maxpart
  defines "s \<equiv> pool_run det fwd sched thread_count maxpart f xs result m"
  shows "concat (map chunk_positions (issued s)) @ [q_current (queue s)..<q_last (queue s)] =
           [0..<length xs] \<and>
         (\<forall>p < length xs.
            length (filter (covers p) (issued s)) + (if q_current (queue s) \<le> p then 1 else 0) = 1) \<and>
         (q_current (queue s) = q_last (queue s) \<longrightarrow>
            (\<forall>p < length xs. length (filter (covers p) (issued s)) = 1)) \<and>
         (all_stopped s \<and> pending_exception s = None \<and> 0 < det thread_count \<longrightarrow>
            q_current (queue s) = q_last (queue s))"
proof -
  define t where "t = s"
  have inv: "pool_inv f xs result m (unat maxpart) t"
    unfolding t_def s_def by (rule pool_inv_reached)
  then have qok: "queue_ok (length xs) result (unat maxpart) (queue t)"
    and io: "issued_ok (length xs) result (unat maxpart) t"
    and ro: "raised_ok f xs t" and dr: "drained_ok f xs result t"
    by (simp_all add: pool_inv_def pool_ok_def)
  from qok have le: "q_current (queue t) \<le> length xs" and last: "q_last (queue t) = length xs"
    by (simp_all add: queue_ok_def)
  from io have cc: "concat (map chunk_positions (issued t)) = [0..<q_current (queue t)]"
    by (simp add: issued_ok_def)
  have 1: "concat (map chunk_positions (issued t)) @ [q_current (queue t)..<q_last (queue t)] =
      [0..<length xs]"
  proof -
    have "[0..<q_current (queue t) + (length xs - q_current (queue t))] =
        [0..<q_current (queue t)] @
        [q_current (queue t)..<q_current (queue t) + (length xs - q_current (queue t))]"
      by (rule upt_add_eq_append) simp
    with le show ?thesis by (simp add: cc last)
  qed
  have cnt: "length (filter (covers p) (issued t)) = (if p < q_current (queue t) then 1 else 0)" for p
    using count_list_positions [of "issued t" p] by (simp add: cc count_list_upt)
  have 2: "\<forall>p < length xs. length (filter (covers p) (issued t)) +
            (if q_current (queue t) \<le> p then 1 else 0) = 1"
    by (simp add: cnt)
  have 3: "q_current (queue t) = q_last (queue t) \<longrightarrow>
      (\<forall>p < length xs. length (filter (covers p) (issued t)) = 1)"
    by (simp add: cnt last)
  have 4: "all_stopped t \<and> pending_exception t = None \<and> 0 < det thread_count \<longrightarrow>
      q_current (queue t) = q_last (queue t)"
  proof (intro impI, elim conjE)
    assume st: "all_stopped t" and pe: "pending_exception t = None" and "0 < det thread_count"
    then have "0 < unat (det thread_count)" by (simp add: unat_gt_0)
    then have "workers t \<noteq> []"
      using workers_reached [of det fwd sched thread_count maxpart f xs result m]
      unfolding t_def s_def by auto
    with st have "Stopped \<in> set (workers t)" by (rule all_stopped_Stopped)
    moreover from ro pe have "raised t = []" by (auto simp: raised_ok_def split: list.splits)
    ultimately show "q_current (queue t) = q_last (queue t)"
      using dr last by (simp add: drained_ok_def)
  qed
  from 1 2 3 4 show ?thesis unfolding t_def by blast
qed

theorem dispenser_partition_witness:
  "all_stopped (pool_run (determine_thread_count 4) True
      [0, 1, 0, 1, 0, 1, 0, 0, 1, 1, 0, 1, 0, 1, 0, 1] 2 2 demo [1, 2, 3, 4, 5] 10 Map.empty) \<and>
   pending_exception (pool_run (determine_thread_count 4) True
      [0, 1, 0, 1, 0, 1, 0, 0, 1, 1, 0, 1, 0, 1, 0, 1] 2 2 demo [1, 2, 3, 4, 5] 10 Map.empty) = None \<and>
   0 < determine_thread_count 4 2 \<and>
   q_current (queue (pool_run (determine_thread_count 4) True
      [0, 1, 0, 1, 0, 1, 0, 0, 1, 1, 0, 1, 0, 1, 0, 1] 2 2 demo [1, 2, 3, 4, 5] 10 Map.empty)) =
   q_last (queue (pool_run (determine_thread_count 4) True
      [0, 1, 0, 1, 0, 1, 0, 0, 1, 1, 0, 1, 0, 1, 0, 1] 2 2 demo [1, 2, 3, 4, 5] 10 Map.empty)) \<and>
   (3::nat) < length [1, 2, 3, 4, 5 :: nat] \<and>
   length (filter (covers 3) (issued (pool_run (determine_thread_count 4) True
      [0, 1, 0, 1, 0, 1, 0, 0, 1, 1, 0, 1, 0, 1, 0, 1] 2 2 demo [1, 2, 3, 4, 5] 10 Map.empty))) = 1"
proof -
  let ?s = "pool_run (determine_thread_count 4) True
      [0, 1, 0, 1, 0, 1, 0, 0, 1, 1, 0, 1, 0, 1, 0, 1] 2 2 demo [1, 2, 3, 4, 5] 10 Map.empty"
  have a: "all_stopped ?s" by code_simp
  have b: "pending_exception ?s = None" by code_simp
  have c: "0 < determine_thread_count 4 2" by (simp add: determine_thread_count_def)
  have d: "(3::nat) < length [1, 2, 3, 4, 5 :: nat]" by simp
  from a b c d dispenser_partition [where xs = "[1, 2, 3, 4, 5]" and f = demo
      and det = "determine_thread_count 4" and fwd = True
      and sched = "[0, 1, 0, 1, 0, 1, 0, 0, 1, 1, 0, 1, 0, 1, 0, 1]"
      and thread_count = 2 and maxpart = 2 and result = 10 and m = Map.empty]
  show ?thesis by auto
qed



section \<open>What the entry point returns\<close>

lemma pool_arguments_inline: "det thread_count \<le> 1 \<Longrightarrow> pool_arguments det thread_count maxpart = None"
  by (simp add: pool_arguments_def)

lemma pool_arguments_pooled:
  "1 < det thread_count \<Longrightarrow>
   pool_arguments det thread_count maxpart =
     Some (thread_count, if maxpart \<noteq> 1 then maxpart else ucast (3 * (det thread_count + 1)))"
  by (simp add: pool_arguments_def Let_def not_le [symmetric])

lemma transform_inline:
  "det thread_count \<le> 1 \<Longrightarrow>
   transform det fwd sched thread_count maxpart f xs result m = Some (std_transform f xs result m)"
  by (simp add: transform_def pool_arguments_inline)

lemma pending_exception_reached:
  "pending_exception (pool_run det fwd sched thread_count maxpart f xs result m) =
     (case raised (pool_run det fwd sched thread_count maxpart f xs result m) of
        [] \<Rightarrow> None | e # es \<Rightarrow> Some e)"
  using pool_inv_reached [of f xs result m maxpart det fwd sched thread_count]
  by (simp add: pool_inv_def raised_ok_def)

lemma raised_reached:
  "e \<in> set (raised (pool_run det fwd sched thread_count maxpart f xs result m)) \<Longrightarrow>
   \<exists>x \<in> set xs. f x = Inl e"
  using pool_inv_reached [of f xs result m maxpart det fwd sched thread_count]
  by (fastforce simp: pool_inv_def raised_ok_def list_all_iff)

text \<open>
  The call on a pool of at least one worker: it returns when all workers have stopped,
  with the first failure raised if there is one, and with the advanced output cursor
  otherwise.
\<close>

lemma join_pool_run:
  fixes f :: "'a \<Rightarrow> 'e + 'b" and xs sched det fwd result m thread_count maxpart
  defines "s \<equiv> pool_run det fwd sched thread_count maxpart f xs result m"
  assumes pos: "0 < det thread_count"
  shows "(case join s of
            None \<Rightarrow> None
          | Some (Inl e) \<Rightarrow> Some (outputs s, Inl e)
          | Some (Inr u) \<Rightarrow> Some (outputs s, Inr (q_result (queue s)))) =
         (if all_stopped s then
            Some (outputs s, case raised s of [] \<Rightarrow> Inr (result + length xs) | e # es \<Rightarrow> Inl e)
          else None)"
proof (cases "all_stopped s")
  case False
  then show ?thesis by (simp add: join_def)
next
  case True
  have pe: "pending_exception s = (case raised s of [] \<Rightarrow> None | e # es \<Rightarrow> Some e)"
    unfolding s_def by (rule pending_exception_reached)
  show ?thesis
  proof (cases "raised s")
    case (Cons e es)
    with True pe show ?thesis by (simp add: join_def)
  next
    case Nil
    have inv: "pool_inv f xs result m (unat maxpart) s"
      unfolding s_def by (rule pool_inv_reached)
    from pos have "0 < unat (det thread_count)" by (simp add: unat_gt_0)
    then have "workers s \<noteq> []"
      using workers_reached [of det fwd sched thread_count maxpart f xs result m]
      unfolding s_def by auto
    with inv True have "q_result (queue s) = result + length xs"
      using Nil by (intro pool_inv_final(2))
    with True pe Nil show ?thesis by (simp add: join_def)
  qed
qed

lemma transform_pooled:
  fixes f :: "'a \<Rightarrow> 'e + 'b" and xs sched det fwd result m thread_count maxpart
  assumes "1 < det thread_count"
  defines "s \<equiv> pool_run det fwd sched thread_count
      (if maxpart \<noteq> 1 then maxpart else ucast (3 * (det thread_count + 1))) f xs result m"
  shows "transform det fwd sched thread_count maxpart f xs result m =
         (if all_stopped s then
            Some (outputs s, case raised s of [] \<Rightarrow> Inr (result + length xs) | e # es \<Rightarrow> Inl e)
          else None)"
proof -
  from assms(1) have pos: "0 < det thread_count"
    by (simp add: word_less_nat_alt)
  define mp where "mp = (if maxpart \<noteq> 1 then maxpart else ucast (3 * (det thread_count + 1)))"
  have s: "s = pool_run det fwd sched thread_count mp f xs result m"
    by (simp only: s_def mp_def)
  have pa: "pool_arguments det thread_count maxpart = Some (thread_count, mp)"
    unfolding mp_def using assms(1) by (rule pool_arguments_pooled)
  have "transform det fwd sched thread_count maxpart f xs result m =
     (case join s of
            None \<Rightarrow> None
          | Some (Inl e) \<Rightarrow> Some (outputs s, Inl e)
          | Some (Inr u) \<Rightarrow> Some (outputs s, Inr (q_result (queue s))))"
    unfolding transform_def pa s by (simp only: option.case prod.case Let_def)
  also have "\<dots> = (if all_stopped s then
            Some (outputs s, case raised s of [] \<Rightarrow> Inr (result + length xs) | e # es \<Rightarrow> Inl e)
          else None)"
    unfolding s_def using pos by (rule join_pool_run)
  finally show ?thesis .
qed

text \<open>The memory of a pool that has stopped without a failure.\<close>

lemma outputs_final:
  fixes f :: "'a \<Rightarrow> 'e + 'b" and xs sched det fwd result m thread_count maxpart
  defines "s \<equiv> pool_run det fwd sched thread_count maxpart f xs result m"
  assumes pos: "0 < det thread_count" and st: "all_stopped s" and nr: "raised s = []"
    and g: "\<forall>x \<in> set xs. \<forall>v. f x = Inr v \<longrightarrow> v = g x"
  shows "outputs s =
     (\<lambda>a. if result \<le> a \<and> a < result + length xs then Some (g (xs ! (a - result))) else m a)"
proof (rule ext)
  fix a
  have inv: "pool_inv f xs result m (unat maxpart) s"
    unfolding s_def by (rule pool_inv_reached)
  from pos have "0 < unat (det thread_count)" by (simp add: unat_gt_0)
  then have ne: "workers s \<noteq> []"
    using workers_reached [of det fwd sched thread_count maxpart f xs result m]
    unfolding s_def by auto
  show "outputs s a =
     (if result \<le> a \<and> a < result + length xs then Some (g (xs ! (a - result))) else m a)"
  proof (cases "result \<le> a \<and> a < result + length xs")
    case True
    then have p: "a - result < length xs" and a: "a = result + (a - result)" by auto
    from pool_inv_final(3) [OF inv st ne nr p]
    have "f (xs ! (a - result)) = Inr (the (outputs s a))" and "outputs s a \<noteq> None"
      using a by simp_all
    moreover from p have "xs ! (a - result) \<in> set xs" by simp
    ultimately have "the (outputs s a) = g (xs ! (a - result))" and "outputs s a \<noteq> None"
      using g by blast+
    with True show ?thesis by auto
  next
    case False
    then have "a < result \<or> result + length xs \<le> a" by auto
    then have "outputs s a = m a" by (rule pool_inv_final(4) [OF inv st ne nr])
    with False show ?thesis by auto
  qed
qed

lemma transform_completes:
  "\<exists>sched'. transform det fwd (sched @ sched') thread_count maxpart f xs result m \<noteq> None"
proof (cases "det thread_count \<le> 1")
  case True
  then show ?thesis by (simp add: transform_inline)
next
  case False
  then have par: "1 < det thread_count" by simp
  define mp where "mp = (if maxpart \<noteq> 1 then maxpart else ucast (3 * (det thread_count + 1)))"
  have "pool_inv f xs result m (unat mp) (pool_run det fwd sched thread_count mp f xs result m)"
    by (rule pool_inv_reached)
  then have "pool_ok (length xs) result (unat mp) (pool_run det fwd sched thread_count mp f xs result m)"
    by (simp add: pool_inv_def)
  then obtain sched' where
    "all_stopped (run f xs sched' (pool_run det fwd sched thread_count mp f xs result m))"
    using run_completes by blast
  then have "all_stopped (pool_run det fwd (sched @ sched') thread_count mp f xs result m)"
    by (simp add: pool_run_def run_append)
  then have "transform det fwd (sched @ sched') thread_count maxpart f xs result m \<noteq> None"
    using par transform_pooled [where det = det and thread_count = thread_count
        and fwd = fwd and sched = "sched @ sched'"
        and maxpart = maxpart and f = f and xs = xs and result = result and m = m]
    by (simp add: mp_def)
  then show ?thesis ..
qed


lemma raised_empty_if_total:
  assumes "\<forall>x \<in> set xs. \<exists>v. f x = Inr v"
  shows "raised (pool_run det fwd sched thread_count maxpart f xs result m) = []"
proof (cases "raised (pool_run det fwd sched thread_count maxpart f xs result m)")
  case Nil
  then show ?thesis .
next
  case (Cons e es)
  then have "e \<in> set (raised (pool_run det fwd sched thread_count maxpart f xs result m))"
    by simp
  then obtain x where "x \<in> set xs" and "f x = Inl e" using raised_reached by fastforce
  with assms show ?thesis by auto
qed

lemma std_transform_no_failure:
  "\<forall>x \<in> set xs. \<exists>v. f x = Inr v \<Longrightarrow> snd (std_transform f xs r m) = Inr (r + length xs)"
proof (induction xs arbitrary: r m)
  case Nil
  show ?case by simp
next
  case (Cons x xs)
  then obtain v where v: "f x = Inr v" by auto
  from Cons.prems have "\<forall>x \<in> set xs. \<exists>v. f x = Inr v" by simp
  then have "snd (std_transform f xs (Suc r) (m(r \<mapsto> v))) = Inr (Suc r + length xs)"
    by (rule Cons.IH)
  with v show ?case by simp
qed

text \<open>
  What the call returns for an element function that raises on no element of the range:
  on both paths, whenever it returns.
\<close>

lemma transform_total:
  fixes f :: "'a \<Rightarrow> 'e + 'b"
  assumes tot: "\<forall>x \<in> set xs. f x = Inr (g x)"
  shows "transform det fwd sched thread_count maxpart f xs result m = None \<or>
         transform det fwd sched thread_count maxpart f xs result m =
           Some (\<lambda>a. if result \<le> a \<and> a < result + length xs
                     then Some (g (xs ! (a - result))) else m a,
                 Inr (result + length xs))"
proof (cases "det thread_count \<le> 1")
  case True
  then have "transform det fwd sched thread_count maxpart f xs result m =
      Some (std_transform f xs result m)" by (rule transform_inline)
  with tot show ?thesis by (simp add: std_transform_total)
next
  case False
  then have par: "1 < det thread_count" by simp
  define mp where "mp = (if maxpart \<noteq> 1 then maxpart else ucast (3 * (det thread_count + 1)))"
  define s where "s = pool_run det fwd sched thread_count mp f xs result m"
  from par have pos: "0 < det thread_count" by (simp add: word_less_nat_alt)
  have t: "transform det fwd sched thread_count maxpart f xs result m =
       (if all_stopped s then
          Some (outputs s, case raised s of [] \<Rightarrow> Inr (result + length xs) | e # es \<Rightarrow> Inl e)
        else None)"
    unfolding s_def mp_def
    using par transform_pooled [where det = det and thread_count = thread_count] by blast
  from tot have nr: "raised s = []" unfolding s_def by (intro raised_empty_if_total) auto
  show ?thesis
  proof (cases "all_stopped s")
    case False
    with t show ?thesis by simp
  next
    case True
    from tot have "\<forall>x \<in> set xs. \<forall>v. f x = Inr v \<longrightarrow> v = g x" by auto
    with pos True nr have "outputs s =
       (\<lambda>a. if result \<le> a \<and> a < result + length xs then Some (g (xs ! (a - result))) else m a)"
      unfolding s_def by (intro outputs_final)
    with t True nr show ?thesis by simp
  qed
qed

section \<open>The claims about the entry point\<close>

text \<open>
  Claim C1. For an element function that returns a value on every element of the input
  range, the call with thread count 1 writes \<open>g x\<^sub>i\<close> to output position \<open>i\<close> for
  every input element \<open>x\<^sub>i\<close> and leaves the rest of the memory as it was; the call with
  a thread count resolved to more than 1 returns, under every interleaving of its
  workers that lets them all stop, exactly what the call with thread count 1 returns,
  whatever the divisor; and every interleaving can be continued to one that lets the
  workers stop.
\<close>

theorem thread_count_equivalence:
  fixes f :: "'a \<Rightarrow> 'e + 'b"
  assumes seq: "det 1 \<le> 1" and par: "1 < det n" and tot: "\<forall>x \<in> set xs. f x = Inr (g x)"
  shows "transform det fwd sched1 1 maxpart1 f xs result m =
           Some (\<lambda>a. if result \<le> a \<and> a < result + length xs
                     then Some (g (xs ! (a - result))) else m a,
                 Inr (result + length xs)) \<and>
         (transform det fwd sched n maxpart f xs result m = None \<or>
          transform det fwd sched n maxpart f xs result m =
            transform det fwd sched1 1 maxpart1 f xs result m) \<and>
         (\<exists>sched'. transform det fwd (sched @ sched') n maxpart f xs result m =
            transform det fwd sched1 1 maxpart1 f xs result m)"
proof -
  let ?expected = "Some (\<lambda>a. if result \<le> a \<and> a < result + length xs
                     then Some (g (xs ! (a - result))) else m a,
                 Inr (result + length xs) :: 'e + nat)"
  have one: "transform det fwd sched1 1 maxpart1 f xs result m = ?expected"
    using tot seq transform_inline [where det = det and thread_count = 1 and fwd = fwd
        and sched = sched1 and maxpart = maxpart1 and f = f and xs = xs and result = result
        and m = m]
    by (simp add: std_transform_total)
  have many: "transform det fwd sch n maxpart f xs result m = None \<or>
      transform det fwd sch n maxpart f xs result m = ?expected" for sch
    using tot by (rule transform_total)
  from transform_completes obtain sched' where
    "transform det fwd (sched @ sched') n maxpart f xs result m \<noteq> None" by blast
  with many [of "sched @ sched'"] one
  have "transform det fwd (sched @ sched') n maxpart f xs result m =
      transform det fwd sched1 1 maxpart1 f xs result m" by simp
  then have ex: "\<exists>sched'. transform det fwd (sched @ sched') n maxpart f xs result m =
      transform det fwd sched1 1 maxpart1 f xs result m" ..
  from one many [of sched] ex show ?thesis by simp
qed

theorem thread_count_equivalence_witness:
  "determine_thread_count 4 1 \<le> 1 \<and> 1 < determine_thread_count 4 2 \<and>
   list_all (\<lambda>x. demo x = Inr (2 * x)) [1, 2, 3, 4, 5] \<and>
   transform (determine_thread_count 4) True [0, 1, 0, 1, 0, 1, 0, 0, 1, 1, 0, 1, 0, 1, 0, 1] 2 2
     demo [1, 2, 3, 4, 5] 10 Map.empty \<noteq> None \<and>
   transform (determine_thread_count 4) True [0, 1, 0, 1, 0, 1, 0, 0, 1, 1, 0, 1, 0, 1, 0, 1] 2 2
     demo [1, 2, 3, 4, 5] 10 Map.empty =
   transform (determine_thread_count 4) True [] 1 1 demo [1, 2, 3, 4, 5] 10 Map.empty \<and>
   map_option snd (transform (determine_thread_count 4) True [] 1 1 demo [1, 2, 3, 4, 5] 10 Map.empty) =
     Some (Inr 15)"
proof -
  let ?par = "transform (determine_thread_count 4) True
      [0, 1, 0, 1, 0, 1, 0, 0, 1, 1, 0, 1, 0, 1, 0, 1] 2 2 demo [1, 2, 3, 4, 5] 10 Map.empty"
  let ?seq = "transform (determine_thread_count 4) True [] 1 1 demo [1, 2, 3, 4, 5] 10 Map.empty"
  have a: "determine_thread_count 4 1 \<le> 1" "1 < determine_thread_count 4 2"
    by (simp_all add: determine_thread_count_def)
  have b: "\<forall>x \<in> set [1, 2, 3, 4, 5]. demo x = Inr (2 * x)"
    by (simp add: demo_def)
  have c: "all_stopped (pool_run (determine_thread_count 4) True
      [0, 1, 0, 1, 0, 1, 0, 0, 1, 1, 0, 1, 0, 1, 0, 1] 2 2 demo [1, 2, 3, 4, 5] 10 Map.empty)"
    by code_simp
  have d: "map_option snd ?seq = Some (Inr 15)"
    by code_simp
  from a(2) c have e: "?par \<noteq> None"
    using transform_pooled [where det = "determine_thread_count 4" and thread_count = 2
        and maxpart = 2 and fwd = True and f = demo and xs = "[1, 2, 3, 4, 5]"
        and sched = "[0, 1, 0, 1, 0, 1, 0, 0, 1, 1, 0, 1, 0, 1, 0, 1]" and result = 10
        and m = Map.empty]
    by simp
  have "?par = None \<or> ?par = ?seq"
    using thread_count_equivalence [where det = "determine_thread_count 4" and n = 2
      and xs = "[1, 2, 3, 4, 5]" and f = demo and g = "\<lambda>x. 2 * x"
      and fwd = True and sched = "[0, 1, 0, 1, 0, 1, 0, 0, 1, 1, 0, 1, 0, 1, 0, 1]"
      and maxpart = 2 and result = 10 and m = Map.empty and ?sched1.0 = "[]" and ?maxpart1.0 = 1,
      OF a b]
    by (elim conjE)
  then have eq: "?par = ?seq"
  proof
    assume "?par = None"
    with e show ?thesis by (rule notE)
  next
    assume "?par = ?seq"
    then show ?thesis .
  qed
  from b have b': "list_all (\<lambda>x. demo x = Inr (2 * x)) [1, 2, 3, 4, 5]"
    by (simp only: list_all_iff)
  from a b' e eq d show ?thesis by (intro conjI)
qed


text \<open>
  Claim C3. On the parallel path the call returns only when all workers have stopped.
  It then raises the first failure that an invocation of the element function raised
  during the run, and returns normally when none did. The failure slot always holds
  the first failure raised so far, so a later failure never replaces it; every failure
  raised comes from the element function on an input element; and a run that has
  stopped on a range with a failing element has captured a failure.
\<close>

theorem failure_propagation:
  fixes f :: "'a \<Rightarrow> 'e + 'b" and xs sched det fwd result m thread_count maxpart
  assumes par: "1 < det thread_count"
  defines "mp \<equiv> if maxpart \<noteq> 1 then maxpart else ucast (3 * (det thread_count + 1))"
  defines "s \<equiv> pool_run det fwd sched thread_count mp f xs result m"
  shows "transform det fwd sched thread_count maxpart f xs result m =
           (if all_stopped s then
              Some (outputs s, case raised s of [] \<Rightarrow> Inr (result + length xs) | e # es \<Rightarrow> Inl e)
            else None) \<and>
         pending_exception s = (case raised s of [] \<Rightarrow> None | e # es \<Rightarrow> Some e) \<and>
         (\<forall>e \<in> set (raised s). \<exists>x \<in> set xs. f x = Inl e) \<and>
         (all_stopped s \<and> (\<exists>x \<in> set xs. \<exists>e. f x = Inl e) \<longrightarrow> raised s \<noteq> []) \<and>
         (\<forall>sched'. \<exists>es.
            raised (pool_run det fwd (sched @ sched') thread_count mp f xs result m) =
              raised s @ es)"
proof (intro conjI)
  show "transform det fwd sched thread_count maxpart f xs result m =
           (if all_stopped s then
              Some (outputs s, case raised s of [] \<Rightarrow> Inr (result + length xs) | e # es \<Rightarrow> Inl e)
            else None)"
    unfolding s_def mp_def
    using par transform_pooled [where det = det and thread_count = thread_count] by blast
  show "pending_exception s = (case raised s of [] \<Rightarrow> None | e # es \<Rightarrow> Some e)"
    unfolding s_def by (rule pending_exception_reached)
  show "\<forall>e \<in> set (raised s). \<exists>x \<in> set xs. f x = Inl e"
    unfolding s_def using raised_reached by fast
  show "all_stopped s \<and> (\<exists>x \<in> set xs. \<exists>e. f x = Inl e) \<longrightarrow> raised s \<noteq> []"
  proof (intro impI notI, elim conjE bexE exE)
    fix x e
    assume st: "all_stopped s" and x: "x \<in> set xs" and fx: "f x = Inl e" and nr: "raised s = []"
    have inv: "pool_inv f xs result m (unat mp) s"
      unfolding s_def by (rule pool_inv_reached)
    from par have "0 < unat (det thread_count)" by (simp add: word_less_nat_alt)
    then have ne: "workers s \<noteq> []"
      using workers_reached [of det fwd sched thread_count mp f xs result m]
      unfolding s_def by auto
    from x obtain p where p: "p < length xs" and xp: "xs ! p = x"
      by (auto simp: in_set_conv_nth)
    from pool_inv_final(3) [OF inv st ne nr p] xp fx show False by simp
  qed
  show "\<forall>sched'. \<exists>es.
      raised (pool_run det fwd (sched @ sched') thread_count mp f xs result m) = raised s @ es"
    unfolding s_def pool_run_def run_append by (intro allI raised_run)
qed

theorem failure_propagation_witness:
  "1 < determine_thread_count 4 2 \<and>
   all_stopped (pool_run (determine_thread_count 4) False
      [0, 1, 0, 1, 0, 1, 0, 0, 1, 1, 0, 1, 0, 1, 0, 1, 0, 1, 0, 1, 0, 1] 2 0 demo [1, 2, 7, 4, 7] 10 Map.empty) \<and>
   raised (pool_run (determine_thread_count 4) False
      [0, 1, 0, 1, 0, 1, 0, 0, 1, 1, 0, 1, 0, 1, 0, 1, 0, 1, 0, 1, 0, 1] 2 0 demo [1, 2, 7, 4, 7] 10 Map.empty) =
     [''boom'', ''boom''] \<and>
   pending_exception (pool_run (determine_thread_count 4) False
      [0, 1, 0, 1, 0, 1, 0, 0, 1, 1, 0, 1, 0, 1, 0, 1, 0, 1, 0, 1, 0, 1] 2 0 demo [1, 2, 7, 4, 7] 10 Map.empty) =
     Some ''boom'' \<and>
   map_option snd (transform (determine_thread_count 4) False
      [0, 1, 0, 1, 0, 1, 0, 0, 1, 1, 0, 1, 0, 1, 0, 1, 0, 1, 0, 1, 0, 1] 2 0 demo [1, 2, 7, 4, 7] 10 Map.empty) =
     Some (Inl ''boom'')"
proof -
  let ?s = "pool_run (determine_thread_count 4) False
      [0, 1, 0, 1, 0, 1, 0, 0, 1, 1, 0, 1, 0, 1, 0, 1, 0, 1, 0, 1, 0, 1] 2 0 demo [1, 2, 7, 4, 7] 10 Map.empty"
  have a: "1 < determine_thread_count 4 2"
    by (simp add: determine_thread_count_def)
  have b: "all_stopped ?s" by code_simp
  have c: "raised ?s = [''boom'', ''boom'']" by code_simp
  from failure_propagation [where det = "determine_thread_count 4" and thread_count = 2
      and maxpart = 0 and fwd = False and f = demo and xs = "[1, 2, 7, 4, 7]"
      and sched = "[0, 1, 0, 1, 0, 1, 0, 0, 1, 1, 0, 1, 0, 1, 0, 1, 0, 1, 0, 1, 0, 1]" and result = 10
      and m = Map.empty, OF a]
  have "transform (determine_thread_count 4) False
      [0, 1, 0, 1, 0, 1, 0, 0, 1, 1, 0, 1, 0, 1, 0, 1, 0, 1, 0, 1, 0, 1] 2 0 demo [1, 2, 7, 4, 7] 10 Map.empty =
      (if all_stopped ?s then
              Some (outputs ?s, case raised ?s of [] \<Rightarrow> Inr (10 + length [1, 2, 7, 4, 7 :: nat])
                 | e # es \<Rightarrow> Inl e)
            else None)"
    and "pending_exception ?s = (case raised ?s of [] \<Rightarrow> None | e # es \<Rightarrow> Some e)"
    by simp_all
  with a b c show ?thesis by simp
qed


text \<open>
  Claim C4. Whenever the call returns normally, on the inline path or on the parallel
  path, the value returned is the output position advanced by the number of input
  elements. When the element function raises on no input element, and in particular
  when the range is empty, every call that returns does return normally. Every
  interleaving can be continued to one under which the call returns.
\<close>

theorem transform_return_value:
  fixes f :: "'a \<Rightarrow> 'e + 'b"
  shows "(transform det fwd sched thread_count maxpart f xs result m = Some (m', Inr r') \<longrightarrow>
            r' = result + length xs) \<and>
         ((\<forall>x \<in> set xs. \<exists>v. f x = Inr v) \<and>
          transform det fwd sched thread_count maxpart f xs result m = Some (m', res) \<longrightarrow>
            res = Inr (result + length xs)) \<and>
         (xs = [] \<and> transform det fwd sched thread_count maxpart f xs result m = Some (m', res) \<longrightarrow>
            res = Inr result) \<and>
         (\<exists>sched'. transform det fwd (sched @ sched') thread_count maxpart f xs result m \<noteq> None)"
proof -
  define mp where "mp = (if maxpart \<noteq> 1 then maxpart else ucast (3 * (det thread_count + 1)))"
  define s where "s = pool_run det fwd sched thread_count mp f xs result m"
  have inline: "transform det fwd sched thread_count maxpart f xs result m =
      Some (std_transform f xs result m)" if "det thread_count \<le> 1"
    using that by (rule transform_inline)
  have pooled: "transform det fwd sched thread_count maxpart f xs result m =
         (if all_stopped s then
            Some (outputs s, case raised s of [] \<Rightarrow> Inr (result + length xs) | e # es \<Rightarrow> Inl e)
          else None)" if "\<not> det thread_count \<le> 1"
  proof -
    from that have "1 < det thread_count" by simp
    then show ?thesis
      unfolding s_def mp_def
      using transform_pooled [where det = det and thread_count = thread_count] by blast
  qed
  have 1: "r' = result + length xs"
    if t: "transform det fwd sched thread_count maxpart f xs result m = Some (m', Inr r')"
  proof (cases "det thread_count \<le> 1")
    case True
    with t inline have "std_transform f xs result m = (m', Inr r')" by simp
    then show ?thesis by (rule std_transform_returns)
  next
    case False
    with t pooled show ?thesis by (auto split: if_splits list.splits)
  qed
  have 2: "res = Inr (result + length xs)"
    if tot: "\<forall>x \<in> set xs. \<exists>v. f x = Inr v"
      and t: "transform det fwd sched thread_count maxpart f xs result m = Some (m', res)"
  proof (cases "det thread_count \<le> 1")
    case True
    with t inline have "std_transform f xs result m = (m', res)" by simp
    with std_transform_no_failure [OF tot, of result m] show ?thesis by simp
  next
    case False
    from tot have "raised s = []" unfolding s_def by (rule raised_empty_if_total)
    with False t pooled show ?thesis by (auto split: if_splits)
  qed
  have 3: "res = Inr result"
    if "xs = []" and "transform det fwd sched thread_count maxpart f xs result m = Some (m', res)"
    using 2 that by simp
  from 1 2 3 transform_completes [of det fwd sched thread_count maxpart f xs result m]
  show ?thesis by blast
qed

theorem transform_return_value_witness:
  "map_option snd (transform (determine_thread_count 4) True
      [0, 1, 0, 1, 0, 1, 0, 0, 1, 1, 0, 1, 0, 1, 0, 1] 2 2 demo [1, 2, 3, 4, 5] 10 Map.empty) =
     Some (Inr 15) \<and>
   map_option snd (transform (determine_thread_count 4) True [] 1 1 demo [1, 2, 3, 4, 5] 10
      Map.empty) = Some (Inr 15) \<and>
   map_option snd (transform (determine_thread_count 4) True [0, 1] 2 1 demo [] 10 Map.empty) =
     Some (Inr 10)"
proof -
  let ?par = "transform (determine_thread_count 4) True
      [0, 1, 0, 1, 0, 1, 0, 0, 1, 1, 0, 1, 0, 1, 0, 1] 2 2 demo [1, 2, 3, 4, 5] 10 Map.empty"
  let ?empty = "transform (determine_thread_count 4) True [0, 1] 2 1 demo [] 10 Map.empty"
  have a: "1 < determine_thread_count 4 2"
    by (simp add: determine_thread_count_def)
  have tot: "\<forall>x \<in> set [1, 2, 3, 4, 5]. \<exists>v. demo x = Inr v"
    by (simp add: demo_def)
  have "all_stopped (pool_run (determine_thread_count 4) True
      [0, 1, 0, 1, 0, 1, 0, 0, 1, 1, 0, 1, 0, 1, 0, 1] 2 2 demo [1, 2, 3, 4, 5] 10 Map.empty)"
    by code_simp
  with a obtain m1 r1 where p: "?par = Some (m1, r1)"
    using transform_pooled [where det = "determine_thread_count 4" and thread_count = 2
        and maxpart = 2 and fwd = True and f = demo and xs = "[1, 2, 3, 4, 5]"
        and sched = "[0, 1, 0, 1, 0, 1, 0, 0, 1, 1, 0, 1, 0, 1, 0, 1]" and result = 10
        and m = Map.empty]
    by simp
  have "all_stopped (pool_run (determine_thread_count 4) True [0, 1] 2 9 demo [] 10 Map.empty)"
    by code_simp
  with a obtain m2 r2 where e: "?empty = Some (m2, r2)"
    using transform_pooled [where det = "determine_thread_count 4" and thread_count = 2
        and maxpart = 1 and fwd = True and f = demo and xs = "[]"
        and sched = "[0, 1]" and result = 10 and m = Map.empty]
    by (simp add: determine_thread_count_def)
  from tot p transform_return_value [where det = "determine_thread_count 4" and thread_count = 2
        and maxpart = 2 and fwd = True and f = demo and xs = "[1, 2, 3, 4, 5]"
        and sched = "[0, 1, 0, 1, 0, 1, 0, 0, 1, 1, 0, 1, 0, 1, 0, 1]" and result = 10
        and m = Map.empty and m' = m1 and res = r1 and r' = 15]
  have 1: "r1 = Inr 15" by simp
  from e transform_return_value [where det = "determine_thread_count 4" and thread_count = 2
        and maxpart = 1 and fwd = True and f = demo and xs = "[]"
        and sched = "[0, 1]" and result = 10 and m = Map.empty and m' = m2 and res = r2 and r' = 10]
  have 2: "r2 = Inr 10" by simp
  have 3: "map_option snd (transform (determine_thread_count 4) True [] 1 1 demo [1, 2, 3, 4, 5] 10
      Map.empty) = Some (Inr 15)"
    by code_simp
  from p e 1 2 3 show ?thesis by simp
qed

section \<open>The arguments handed to the pool\<close>

lemma unat_ucast_size_t: "unat (ucast (w :: c_unsigned) :: size_t) = unat w"
proof -
  have "unat w < 2 ^ 32" using unsigned_less [of w] by simp
  also have "(2 :: nat) ^ 32 < 2 ^ 64" by simp
  finally show ?thesis by (simp add: unsigned_ucast_eq take_bit_nat_eq_self)
qed

lemma q_maxpart_reached:
  "q_maxpart (queue (pool_run det fwd sched thread_count maxpart f xs result m)) = unat maxpart"
  using pool_inv_reached [of f xs result m maxpart det fwd sched thread_count]
  by (simp add: pool_inv_def pool_ok_def queue_ok_def)

text \<open>
  Claim C5, as the code has it. A divisor of 0 is handed on as 0 and makes every chunk a
  single element. The value 1 is the sentinel for an unset divisor, as the comment of
  \<open>transform\<close> says, so a caller who supplies 1 gets the default as well: the pool
  receives \<open>3 * (tc + 1)\<close>, computed in \<open>unsigned\<close>, which is the integer
  \<open>3 * (tc + 1)\<close> as long as that fits 32 bits. Every value other than 1 is handed on
  unchanged and becomes the divisor of the dispenser.
\<close>

theorem maxpart_resolution:
  "(pool_arguments det thread_count maxpart = Some (t, d) \<longrightarrow>
      d = (if maxpart = 1 then ucast (3 * (det thread_count + 1)) else maxpart) \<and>
      q_maxpart (queue (pool_run det fwd sched t d f xs result m)) = unat d) \<and>
   (pool_arguments det thread_count maxpart = Some (t, d) \<and> maxpart = 1 \<and>
    unat (det thread_count) \<le> 1431655764 \<longrightarrow>
      unat d = 3 * (unat (det thread_count) + 1)) \<and>
   (pool_arguments det thread_count 0 = Some (t, d) \<longrightarrow> d = 0 \<and> chunk_size rem (unat d) = 1)"
proof -
  have 1: "d = (if maxpart = 1 then ucast (3 * (det thread_count + 1)) else maxpart)"
    if "pool_arguments det thread_count maxpart = Some (t, d)"
    using that by (auto simp: pool_arguments_def Let_def split: if_splits)
  have 2: "q_maxpart (queue (pool_run det fwd sched t d f xs result m)) = unat d"
    by (rule q_maxpart_reached)
  have 3: "unat d = 3 * (unat (det thread_count) + 1)"
    if a: "pool_arguments det thread_count maxpart = Some (t, d)" and one: "maxpart = 1"
      and b: "unat (det thread_count) \<le> 1431655764"
  proof -
    from 1 [OF a] one have d: "d = ucast (3 * (det thread_count + 1))" by simp
    from b have "unat (det thread_count + 1) = unat (det thread_count) + 1"
      by (simp add: unat_word_ariths)
    with b have "unat (3 * (det thread_count + 1)) = 3 * (unat (det thread_count) + 1)"
      by (simp add: unat_word_ariths)
    with d show ?thesis by (simp only: unat_ucast_size_t)
  qed
  have 4: "d = 0 \<and> chunk_size rem (unat d) = 1"
    if "pool_arguments det thread_count 0 = Some (t, d)"
  proof -
    from that have "d = 0" by (auto simp: pool_arguments_def Let_def split: if_splits)
    then show ?thesis by (simp add: chunk_size_def)
  qed
  from 1 2 3 4 show ?thesis by blast
qed

theorem maxpart_resolution_witness:
  "pool_arguments (determine_thread_count 8) 4 7 = Some (4, 7) \<and>
   q_maxpart (queue (pool_run (determine_thread_count 8) True [0, 1] 4 7 demo [1, 2, 3] 0
      Map.empty)) = 7 \<and>
   pool_arguments (determine_thread_count 8) 4 1 = Some (4, 15) \<and>
   unat (15 :: size_t) = 3 * (unat (determine_thread_count 8 4) + 1) \<and>
   pool_arguments (determine_thread_count 8) 4 0 = Some (4, 0) \<and>
   chunk_size 100 (unat (0 :: size_t)) = 1"
proof -
  have a: "pool_arguments (determine_thread_count 8) 4 7 = Some (4, 7)"
    "pool_arguments (determine_thread_count 8) 4 1 = Some (4, 15)"
    "pool_arguments (determine_thread_count 8) 4 0 = Some (4, 0)"
    by code_simp+
  have b: "unat (determine_thread_count 8 4) \<le> 1431655764"
    by (simp add: determine_thread_count_def)
  from a(1) maxpart_resolution [where det = "determine_thread_count 8" and thread_count = 4
      and maxpart = 7 and t = 4 and d = 7 and fwd = True and xs = "[1, 2, 3]" and f = demo
      and sched = "[0, 1]" and result = 0 and m = Map.empty and rem = 100]
  have 1: "q_maxpart (queue (pool_run (determine_thread_count 8) True [0, 1] 4 7 demo [1, 2, 3] 0
      Map.empty)) = 7"
    by simp
  from a(2) b maxpart_resolution [where det = "determine_thread_count 8" and thread_count = 4
      and maxpart = 1 and t = 4 and d = 15 and fwd = True and xs = "[1, 2, 3]" and f = demo
      and sched = "[0, 1]" and result = 0 and m = Map.empty and rem = 100]
  have 2: "unat (15 :: size_t) = 3 * (unat (determine_thread_count 8 4) + 1)"
    by simp
  from a(3) maxpart_resolution [where det = "determine_thread_count 8" and thread_count = 4
      and maxpart = 0 and t = 4 and d = 0 and fwd = True and xs = "[1, 2, 3]" and f = demo
      and sched = "[0, 1]" and result = 0 and m = Map.empty and rem = 100]
  have 3: "chunk_size 100 (unat (0 :: size_t)) = 1"
    by simp
  from a 1 2 3 show ?thesis by (intro conjI)
qed

text \<open>
  Claim C5 as the spec states it fails at a caller-supplied divisor of 1: with four
  threads the pool receives 15, and the first chunk of a range of 100 elements has 6
  elements where the divisor 1 would give 100.
\<close>

theorem maxpart_one_counterexample:
  "pool_arguments (determine_thread_count 8) 4 1 = Some (4, 15) \<and>
   chunk_size 100 (unat (15 :: size_t)) = 6 \<and> chunk_size 100 1 = 100"
  by code_simp

text \<open>
  Claim C7, as the code has it. On the parallel path the thread count handed to the
  constructor of the pool is the caller's own \<open>thread_count\<close>, unchanged, which may be
  the sentinel -1; what is greater than 1 is the count resolved from it, and that many
  workers, at least two, are spawned.
\<close>

theorem pool_thread_count_argument:
  "pool_arguments det thread_count maxpart = Some (t, d) \<longrightarrow>
     t = thread_count \<and> 1 < det t \<and>
     length (workers (pool_run det fwd sched t d f xs result m)) = unat (det t) \<and>
     2 \<le> length (workers (pool_run det fwd sched t d f xs result m))"
proof
  assume "pool_arguments det thread_count maxpart = Some (t, d)"
  then have t: "t = thread_count" and gt: "1 < det t"
    by (auto simp: pool_arguments_def Let_def split: if_splits)
  from gt have "2 \<le> unat (det t)" by (simp add: word_less_nat_alt)
  with t gt show "t = thread_count \<and> 1 < det t \<and>
     length (workers (pool_run det fwd sched t d f xs result m)) = unat (det t) \<and>
     2 \<le> length (workers (pool_run det fwd sched t d f xs result m))"
    by (simp add: workers_reached)
qed

theorem pool_thread_count_argument_witness:
  "pool_arguments (determine_thread_count 4) (- 1) 1 = Some (- 1, 15) \<and>
   1 < determine_thread_count 4 (- 1) \<and>
   length (workers (pool_run (determine_thread_count 4) True [0, 1] (- 1) 15 demo [1, 2, 3] 0
      Map.empty)) = 4"
proof -
  have a: "pool_arguments (determine_thread_count 4) (- 1) 1 = Some (- 1, 15)"
    by code_simp
  have b: "unat (determine_thread_count 4 (- 1)) = 4"
    by (simp add: determine_thread_count_def)
  from a b pool_thread_count_argument [where det = "determine_thread_count 4"
      and thread_count = "- 1" and maxpart = 1 and t = "- 1" and d = 15 and fwd = True
      and xs = "[1, 2, 3]" and result = 0 and m = Map.empty and f = demo and sched = "[0, 1]"]
  show ?thesis by simp
qed

text \<open>
  Claim C7 as the spec states it fails at the default thread count: with four hardware
  threads the parallel path is chosen and the constructor receives -1, not the resolved 4.
\<close>

theorem pool_thread_count_counterexample:
  "pool_arguments (determine_thread_count 4) (- 1) 1 = Some (- 1, 15) \<and>
   determine_thread_count 4 (- 1) = 4 \<and> sint (- 1 :: c_int) = - 1"
  by code_simp


section \<open>The size of a chunk\<close>

text \<open>
  Claim C6. A claim on a dispenser whose cursor is not at the end and whose remaining
  count is positive issues a chunk that starts at the cursor and has
  \<open>max(1, remaining / maxpart)\<close> elements, and exactly one element when \<open>maxpart\<close> is
  0. In every state that the pool reaches the remaining count is the number of unclaimed
  positions, and every chunk issued so far has the size that this rule gives for the
  positions that were unclaimed when it was issued; with \<open>maxpart = 0\<close> every issued
  chunk has exactly one element.
\<close>

theorem claim_chunk_size:
  fixes f :: "'a \<Rightarrow> 'e + 'b" and xs sched det fwd result m thread_count maxpart
  defines "s \<equiv> pool_run det fwd sched thread_count maxpart f xs result m"
  shows "(q_current q \<noteq> q_last q \<and> 0 < remaining_count q \<longrightarrow>
            (\<exists>c q'. claim q = (Claimed c, q') \<and> in_first c = q_current q \<and>
               in_last c - in_first c =
                 (if q_maxpart q = 0 then 1 else max 1 (remaining_count q div q_maxpart q)))) \<and>
         remaining_count (queue s) = length xs - q_current (queue s) \<and>
         (\<forall>c \<in> set (issued s).
            in_last c - in_first c =
              (if maxpart = 0 then 1 else max 1 ((length xs - in_first c) div unat maxpart))) \<and>
         (maxpart = 0 \<longrightarrow> (\<forall>c \<in> set (issued s). in_last c - in_first c = 1))"
proof -
  have 1: "\<exists>c q'. claim q = (Claimed c, q') \<and> in_first c = q_current q \<and>
      in_last c - in_first c =
        (if q_maxpart q = 0 then 1 else max 1 (remaining_count q div q_maxpart q))"
    if "q_current q \<noteq> q_last q" and "0 < remaining_count q"
    using that
    by (auto simp: claim_def remaining_count_def chunk_size_def Let_def split: option.splits)
  have inv: "pool_inv f xs result m (unat maxpart) s"
    unfolding s_def by (rule pool_inv_reached)
  then have qok: "queue_ok (length xs) result (unat maxpart) (queue s)"
    and io: "issued_ok (length xs) result (unat maxpart) s"
    by (simp_all add: pool_inv_def pool_ok_def)
  from qok have 2: "remaining_count (queue s) = length xs - q_current (queue s)"
    by (auto simp: queue_ok_def remaining_count_def split: option.splits)
  have 3: "in_last c - in_first c =
      (if maxpart = 0 then 1 else max 1 ((length xs - in_first c) div unat maxpart))"
    if "c \<in> set (issued s)" for c
  proof -
    from io that have "chunk_ok (length xs) result (unat maxpart) c"
      by (simp add: issued_ok_def list_all_iff)
    then show ?thesis by (simp add: chunk_ok_def chunk_size_def unat_eq_0)
  qed
  from 1 2 3 show ?thesis by simp
qed

theorem claim_chunk_size_witness:
  "q_current (Transform_Queue_ctor True 100 0 5) \<noteq> q_last (Transform_Queue_ctor True 100 0 5) \<and>
   0 < remaining_count (Transform_Queue_ctor True 100 0 5) \<and>
   fst (claim (Transform_Queue_ctor True 100 0 5)) = Claimed (Chunk 0 20 0) \<and>
   fst (claim (Transform_Queue_ctor False 100 0 0)) = Claimed (Chunk 0 1 0) \<and>
   issued (pool_run (determine_thread_count 4) False
      [0, 1, 0, 1, 0, 1, 0, 0, 1, 1, 0, 1, 0, 1, 0, 1, 0, 1, 0, 1, 0, 1] 2 0 demo
      [1, 2, 7, 4, 7] 10 Map.empty) =
     [Chunk 0 1 10, Chunk 1 2 11, Chunk 2 3 12, Chunk 3 4 13, Chunk 4 5 14] \<and>
   list_all (\<lambda>c. in_last c - in_first c = 1)
     (issued (pool_run (determine_thread_count 4) False
      [0, 1, 0, 1, 0, 1, 0, 0, 1, 1, 0, 1, 0, 1, 0, 1, 0, 1, 0, 1, 0, 1] 2 0 demo
      [1, 2, 7, 4, 7] 10 Map.empty))"
proof -
  let ?s = "pool_run (determine_thread_count 4) False
      [0, 1, 0, 1, 0, 1, 0, 0, 1, 1, 0, 1, 0, 1, 0, 1, 0, 1, 0, 1, 0, 1] 2 0 demo
      [1, 2, 7, 4, 7] 10 Map.empty"
  have a: "q_current (Transform_Queue_ctor True 100 0 5) \<noteq> q_last (Transform_Queue_ctor True 100 0 5)"
    "0 < remaining_count (Transform_Queue_ctor True 100 0 5)"
    "fst (claim (Transform_Queue_ctor True 100 0 5)) = Claimed (Chunk 0 20 0)"
    "fst (claim (Transform_Queue_ctor False 100 0 0)) = Claimed (Chunk 0 1 0)"
    by code_simp+
  have b: "issued ?s = [Chunk 0 1 10, Chunk 1 2 11, Chunk 2 3 12, Chunk 3 4 13, Chunk 4 5 14]"
    by code_simp
  from claim_chunk_size [where q = "Transform_Queue_ctor True 100 0 5"
      and det = "determine_thread_count 4" and fwd = False and thread_count = 2 and maxpart = 0
      and f = demo and xs = "[1, 2, 7, 4, 7]" and result = 10 and m = Map.empty
      and sched = "[0, 1, 0, 1, 0, 1, 0, 0, 1, 1, 0, 1, 0, 1, 0, 1, 0, 1, 0, 1, 0, 1]"]
  have "\<forall>c \<in> set (issued ?s). in_last c - in_first c = 1" by simp
  then have c: "list_all (\<lambda>c. in_last c - in_first c = 1) (issued ?s)"
    by (simp only: list_all_iff)
  from a b c show ?thesis by (intro conjI)
qed


section \<open>The integer-range form\<close>

lemma integral_range_Nil: "integral_range a a = []"
  by (simp add: integral_range.simps [of a a])

lemma integral_range_Cons: "a \<noteq> b \<Longrightarrow> integral_range a b = a # integral_range (a + 1) b"
  by (simp add: integral_range.simps [of a b])

lemma integral_range_eq:
  "integral_range a b = map (\<lambda>k. a + of_nat k) [0..<unat (b - a)]"
proof (induction "unat (b - a)" arbitrary: a)
  case 0
  then have "b - a = 0" by (simp add: unat_eq_0)
  then have "a = b" by simp
  with 0 show ?case by (simp add: integral_range_Nil)
next
  case (Suc n)
  then have ne: "a \<noteq> b" by auto
  then have nz: "b - a \<noteq> 0" by simp
  have "b - (a + 1) = (b - a) - 1" by simp
  then have "unat (b - (a + 1)) = unat ((b - a) - 1)" by (rule arg_cong)
  also have "\<dots> = unat (b - a) - 1" using nz by (simp add: unat_minus_one)
  finally have n: "n = unat (b - (a + 1))" using Suc.hyps(2) by simp
  then have ih: "integral_range (a + 1) b = map (\<lambda>k. a + 1 + of_nat k) [0..<n]"
    using Suc.hyps(1) by simp
  have m: "map (\<lambda>k. a + of_nat k) [0..<Suc n] = a # map (\<lambda>k. a + 1 + of_nat k) [0..<n]"
    by (simp only: upt_conv_Cons [of 0 "Suc n"] map_Suc_upt [symmetric])
       (simp add: comp_def ac_simps)
  have "integral_range a b = a # integral_range (a + 1) b"
    using ne by (rule integral_range_Cons)
  also have "\<dots> = a # map (\<lambda>k. a + 1 + of_nat k) [0..<n]"
    by (simp only: ih)
  also have "\<dots> = map (\<lambda>k. a + of_nat k) [0..<Suc n]"
    by (simp only: m)
  finally show ?case by (simp only: Suc.hyps(2))
qed

lemma common_value_bounds:
  fixes w :: "'w::len word"
  shows "(if sg then - (2 ^ (LENGTH('w) - 1)) else 0) \<le> common_value sg w"
    and "common_value sg w < (if sg then 2 ^ (LENGTH('w) - 1) else 2 ^ LENGTH('w))"
  using sint_ge [of w] sint_lt [of w] uint_bounded [of w]
  by (auto simp: common_value_def)

lemma word_of_int_common_value: "word_of_int (common_value sg w) = w"
  by (simp add: common_value_def)

lemma common_value_word_of_int:
  assumes "(if sg then - (2 ^ (LENGTH('w) - 1)) else 0) \<le> x"
    and "x < (if sg then 2 ^ (LENGTH('w) - 1) else 2 ^ LENGTH('w))"
  shows "common_value sg (word_of_int x :: 'w::len word) = x"
proof (cases sg)
  case True
  with assms have "signed_take_bit (LENGTH('w) - 1) x = x"
    by (intro signed_take_bit_int_eq_self) simp_all
  with True show ?thesis by (simp add: common_value_def sint_sbintrunc')
next
  case False
  with assms have "take_bit LENGTH('w) x = x"
    by (intro take_bit_int_eq_self) simp_all
  with False show ?thesis by (simp add: common_value_def uint_word_of_int_eq)
qed

lemma two_power_halves: "(2 :: int) ^ (LENGTH('w::len) - 1) + 2 ^ (LENGTH('w) - 1) = 2 ^ LENGTH('w)"
proof -
  have "LENGTH('w) = Suc (LENGTH('w) - 1)" by simp
  then have "(2 :: int) ^ LENGTH('w) = 2 * 2 ^ (LENGTH('w) - 1)"
    by (metis power_Suc)
  then show ?thesis by simp
qed

lemma unat_diff_common_value:
  fixes a b :: "'w::len word"
  assumes "common_value sg a \<le> common_value sg b"
  shows "unat (b - a) = nat (common_value sg b - common_value sg a)"
proof -
  let ?d = "common_value sg b - common_value sg a"
  have "(word_of_int ?d :: 'w word) =
      word_of_int (common_value sg b) - word_of_int (common_value sg a)"
    by simp
  then have ba: "b - a = word_of_int ?d"
    by (simp only: word_of_int_common_value)
  have nn: "0 \<le> ?d" using assms by simp
  have lt: "?d < 2 ^ LENGTH('w)"
    using common_value_bounds [of sg a] common_value_bounds [of sg b]
      two_power_halves [where 'w = 'w]
    by (auto split: if_splits)
  have "uint (word_of_int ?d :: 'w word) = take_bit LENGTH('w) ?d"
    by (rule uint_word_of_int_eq)
  also have "\<dots> = ?d" using nn lt by (rule take_bit_int_eq_self)
  finally have "uint (b - a) = ?d" by (simp only: ba)
  then show ?thesis by (simp only: unat_eq_nat_uint)
qed

lemma common_value_step:
  fixes a b :: "'w::len word"
  assumes "common_value sg a \<le> common_value sg b"
    and "k < nat (common_value sg b - common_value sg a)"
  shows "common_value sg (a + of_nat k) = common_value sg a + int k"
proof -
  have "(word_of_int (common_value sg a + int k) :: 'w word) =
      word_of_int (common_value sg a) + of_nat k"
    by simp
  then have "a + of_nat k = word_of_int (common_value sg a + int k)"
    by (simp only: word_of_int_common_value)
  moreover have "common_value sg (word_of_int (common_value sg a + int k) :: 'w word) =
      common_value sg a + int k"
  proof (rule common_value_word_of_int)
    show "(if sg then - (2 ^ (LENGTH('w) - 1)) else 0) \<le> common_value sg a + int k"
      using common_value_bounds(1) [of sg a] by (auto split: if_splits)
    have "common_value sg a + int k < common_value sg b" using assms(2) by linarith
    then show "common_value sg a + int k < (if sg then 2 ^ (LENGTH('w) - 1) else 2 ^ LENGTH('w))"
      using common_value_bounds(2) [of sg b] by (auto split: if_splits)
  qed
  ultimately show ?thesis by simp
qed

text \<open>
  Claim C8. The integer-range form converts both bounds to the common type and traverses
  from the one to the other. When the first bound is not greater than the last, both
  read in the common type, the traversal ends after \<open>last - first\<close> steps and visits
  the integers \<open>first\<close>, \<open>first + 1\<close>, ... up to \<open>last - 1\<close>, each once. The
  call, whenever it returns, has applied the function to each of them, written the
  result for the \<open>k\<close>-th to output position \<open>k\<close>, and returns the output position
  advanced by \<open>last - first\<close>; every interleaving can be continued to one under which
  the call returns.
\<close>

theorem integral_range_traversal:
  fixes f :: "'w::len word \<Rightarrow> 'e + 'b" and i_first i_last :: int and is_signed :: bool
  defines "a \<equiv> (word_of_int i_first :: 'w word)" and "b \<equiv> (word_of_int i_last :: 'w word)"
  defines "n \<equiv> nat (common_value is_signed (word_of_int i_last :: 'w word) -
                     common_value is_signed (word_of_int i_first :: 'w word))"
  assumes le: "common_value is_signed a \<le> common_value is_signed b"
  shows "length (integral_range a b) = n \<and>
         map (common_value is_signed) (integral_range a b) =
           map (\<lambda>k. common_value is_signed a + int k) [0..<n] \<and>
         distinct (integral_range a b) \<and>
         ((\<forall>x \<in> set (integral_range a b). f x = Inr (g x)) \<longrightarrow>
            (transform_integral det fwd sched thread_count maxpart f i_first i_last result m = None \<or>
             transform_integral det fwd sched thread_count maxpart f i_first i_last result m =
               Some (\<lambda>p. if result \<le> p \<and> p < result + n
                          then Some (g (a + of_nat (p - result))) else m p,
                     Inr (result + n))) \<and>
            (\<exists>sched'. transform_integral det fwd (sched @ sched') thread_count maxpart f
                         i_first i_last result m \<noteq> None))"
proof -
  have n: "unat (b - a) = n"
    unfolding n_def a_def [symmetric] b_def [symmetric] using le by (rule unat_diff_common_value)
  have r: "integral_range a b = map (\<lambda>k. a + of_nat k) [0..<n]"
    using integral_range_eq [of a b] by (simp only: n)
  then have 1: "length (integral_range a b) = n" by simp
  have 2: "map (common_value is_signed) (integral_range a b) =
      map (\<lambda>k. common_value is_signed a + int k) [0..<n]"
    unfolding r map_map comp_def
  proof (rule map_cong [OF refl])
    fix k assume "k \<in> set [0..<n]"
    then have "k < nat (common_value is_signed b - common_value is_signed a)"
      by (simp add: n_def a_def b_def)
    with le show "common_value is_signed (a + of_nat k) = common_value is_signed a + int k"
      by (rule common_value_step)
  qed
  have "distinct (map (\<lambda>k. common_value is_signed a + int k) [0..<n])"
    by (simp add: distinct_map inj_on_def)
  then have "distinct (map (common_value is_signed) (integral_range a b))"
    by (simp only: 2)
  then have 3: "distinct (integral_range a b)" by (simp add: distinct_map)
  have 4: "transform_integral det fwd sched thread_count maxpart f i_first i_last result m = None \<or>
      transform_integral det fwd sched thread_count maxpart f i_first i_last result m =
        Some (\<lambda>p. if result \<le> p \<and> p < result + n
                   then Some (g (a + of_nat (p - result))) else m p,
              Inr (result + n))"
    if tot: "\<forall>x \<in> set (integral_range a b). f x = Inr (g x)"
  proof -
    have "(\<lambda>p. if result \<le> p \<and> p < result + length (integral_range a b)
                then Some (g (integral_range a b ! (p - result))) else m p) =
          (\<lambda>p. if result \<le> p \<and> p < result + n
                then Some (g (a + of_nat (p - result))) else m p)"
      by (rule ext) (auto simp: r)
    with transform_total [OF tot, of det fwd sched thread_count "ucast maxpart" result m] 1
    show ?thesis by (simp add: transform_integral_def a_def b_def)
  qed
  have 5: "\<exists>sched'. transform_integral det fwd (sched @ sched') thread_count maxpart f
      i_first i_last result m \<noteq> None"
    unfolding transform_integral_def by (rule transform_completes)
  from 1 2 3 4 5 show ?thesis by blast
qed

theorem integral_range_traversal_witness:
  "common_value True (word_of_int (- 2) :: 8 word) \<le> common_value True (word_of_int 3 :: 8 word) \<and>
   length (integral_range (word_of_int (- 2) :: 8 word) (word_of_int 3)) = 5 \<and>
   map (common_value True) (integral_range (word_of_int (- 2) :: 8 word) (word_of_int 3)) =
     [- 2, - 1, 0, 1, 2] \<and>
   common_value False (word_of_int 0 :: 64 word) \<le> common_value False (word_of_int 4294967296 :: 64 word) \<and>
   length (integral_range (word_of_int 0 :: 64 word) (word_of_int 4294967296)) = 4294967296"
proof -
  have a: "common_value True (word_of_int (- 2) :: 8 word) \<le> common_value True (word_of_int 3 :: 8 word)"
    by (simp add: common_value_def)
  have b: "common_value False (word_of_int 0 :: 64 word) \<le>
      common_value False (word_of_int 4294967296 :: 64 word)"
    by (simp add: common_value_def)
  from integral_range_traversal [where ?'w = 8 and is_signed = True and i_first = "- 2"
      and i_last = 3 and f = "\<lambda>w. (Inr (unat w) :: string + nat)" and g = unat
      and det = "determine_thread_count 4" and fwd = True and sched = "[]" and thread_count = 1
      and maxpart = 1 and result = 0 and m = Map.empty, OF a]
  have 1: "length (integral_range (word_of_int (- 2) :: 8 word) (word_of_int 3)) = 5"
    and 2: "map (common_value True) (integral_range (word_of_int (- 2) :: 8 word) (word_of_int 3)) =
     [- 2, - 1, 0, 1, 2]"
    by (simp_all add: common_value_def upt_conv_Cons)
  from integral_range_traversal [where ?'w = 64 and is_signed = False and i_first = 0
      and i_last = 4294967296 and f = "\<lambda>w. (Inr (unat w) :: string + nat)" and g = unat
      and det = "determine_thread_count 4" and fwd = True and sched = "[]" and thread_count = 1
      and maxpart = 1 and result = 0 and m = Map.empty, OF b]
  have 3: "length (integral_range (word_of_int 0 :: 64 word) (word_of_int 4294967296)) = 4294967296"
    by (simp add: common_value_def)
  from a b 1 2 3 show ?thesis by (intro conjI)
qed

end
